theory Spec2Isabelle
  imports Main "HOL-Library.Word" "HOL-Library.AList"
begin

unbundle bit_operations_syntax

section \<open>Heap analyzer (plugins/HeapAnalyzer/DialogHeap.cpp)\<close>

text \<open>
  The dialog reconstructs the chunk list of a glibc-style heap in a debugged process.
  Addresses (\<^verbatim>\<open>edb::address_t\<close>), the \<^verbatim>\<open>ulong\<close> header fields and pointers all
  have the width of the address type, which is the type parameter \<open>'a\<close> of the words
  below: \<open>32 word\<close> for the 32-bit build and \<open>64 word\<close> for the 64-bit one. All
  address arithmetic is unsigned and wraps around, as in the C++.
\<close>

subsection \<open>Constants and the chunk header\<close>

type_synonym byte = "8 word"

definition PREV_INUSE :: "'a::len word" where
  "PREV_INUSE = 0x1"

definition IS_MMAPPED :: "'a::len word" where
  "IS_MMAPPED = 0x2"

definition NON_MAIN_ARENA :: "'a::len word" where
  "NON_MAIN_ARENA = 0x4"

definition SIZE_BITS :: "'a::len word" where
  "SIZE_BITS = (PREV_INUSE OR IS_MMAPPED OR NON_MAIN_ARENA)"

text \<open>
  \<^verbatim>\<open>sizeof(edb::address_t)\<close>, which is also \<^verbatim>\<open>sizeof(ulong)\<close> and the size of a
  pointer: 4 bytes at 32 bits, 8 bytes at 64 bits.
\<close>

definition sizeof_address :: "'a::len word" where
  "sizeof_address = of_nat (LENGTH('a) div 8)"

text \<open>\<^verbatim>\<open>sizeof(unsigned int)\<close> is 4 bytes on both supported targets.\<close>

definition sizeof_unsigned_int :: "'a::len word" where
  "sizeof_unsigned_int = 4"

record (overloaded) 'a malloc_chunk =
  prev_size :: "'a word"
  size_field :: "'a word"
  fd :: "'a word"
  bk :: "'a word"

definition chunk_size :: "'a::len malloc_chunk \<Rightarrow> 'a word" where
  "chunk_size c = size_field c AND NOT SIZE_BITS"

definition prev_inuse :: "'a::len malloc_chunk \<Rightarrow> bool" where
  "prev_inuse c = (size_field c AND PREV_INUSE \<noteq> 0)"

definition next_chunk :: "'a::len word \<Rightarrow> 'a malloc_chunk \<Rightarrow> 'a word" where
  "next_chunk p c = p + chunk_size c"

definition block_start :: "'a::len word \<Rightarrow> 'a word" where
  "block_start pointer = pointer + sizeof_address * 2"

subsection \<open>Results\<close>

text \<open>
  The type column of a result is one of the three strings \<^verbatim>\<open>tr("Top")\<close>,
  \<^verbatim>\<open>tr("Busy")\<close> and \<^verbatim>\<open>tr("Free")\<close>.

  Modelled from the spec: the \<^verbatim>\<open>Result\<close> structure (its header is not among the
  sources). A chunk record holds its address, its recorded size, its state, the
  payload tag and the outgoing edges; the constructor used by the walk takes the
  first four and leaves the edge list empty.
\<close>

datatype chunk_type = Top | Busy | Free

record (overloaded) 'a Result =
  block :: "'a word"
  size_result :: "'a word"
  type_result :: chunk_type
  data :: string
  points_to :: "'a word list"

definition new_Result :: "'a::len word \<Rightarrow> 'a word \<Rightarrow> chunk_type \<Rightarrow> string \<Rightarrow> 'a Result" where
  "new_Result b sz t d =
     \<lparr>block = b, size_result = sz, type_result = t, data = d, points_to = []\<rparr>"

subsection \<open>The debugged process and the debugger services\<close>

text \<open>
  Modelled from the spec: the memory reader \<^verbatim>\<open>IProcess::read_bytes(address, buf, len)\<close>
  (\<^verbatim>\<open>readBytes(address, length) -> bytes | failure\<close>). A process is its reader; \<open>None\<close>
  is the call that returns \<^verbatim>\<open>false\<close>. The callers below pass a buffer and, except in
  \<^verbatim>\<open>process_potential_pointer\<close>, ignore the returned flag: after a failed call the
  buffer still holds what it held before the call, so every read below takes the
  previous contents of its buffer. Buffers that the C++ leaves uninitialised start
  with contents that are parameters of the model.

  The other services (\<^verbatim>\<open>edb::v1\<close>) are fields of the environment record: the two string
  decoders (\<open>None\<close> when they return \<^verbatim>\<open>false\<close>), the configured minimum string
  length, the page size, the pointer formatter, the symbol table and the list of
  memory regions.
\<close>

type_synonym 'a IProcess = "'a word \<Rightarrow> nat \<Rightarrow> byte list option"

record (overloaded) 'a IRegion =
  region_name :: string
  region_start :: "'a word"
  region_end :: "'a word"

record (overloaded) 'a edb =
  process :: "'a IProcess option"
  get_ascii_string_at_address :: "'a word \<Rightarrow> int \<Rightarrow> 'a word \<Rightarrow> string option"
  get_utf16_string_at_address :: "'a word \<Rightarrow> int \<Rightarrow> 'a word \<Rightarrow> string option"
  min_string_length :: int
  page_size :: "'a word"
  format_pointer :: "'a word \<Rightarrow> string"
  symbol_find :: "string \<Rightarrow> 'a word option"
  regions :: "'a IRegion list"

text \<open>
  The structure overlay of the C++ on an x86 host: little-endian fields of
  \<^verbatim>\<open>sizeof(edb::address_t)\<close> bytes each, in declaration order.
\<close>

fun word_of_bytes :: "byte list \<Rightarrow> 'a::len word" where
  "word_of_bytes [] = 0"
| "word_of_bytes (b # bs) = ucast b + 256 * word_of_bytes bs"

definition chunk_of_bytes :: "byte list \<Rightarrow> 'a::len malloc_chunk" where
  "chunk_of_bytes bs =
     (let n = LENGTH('a) div 8 in
      \<lparr>prev_size = word_of_bytes (take n bs),
       size_field = word_of_bytes (take n (drop n bs)),
       fd = word_of_bytes (take n (drop (2 * n) bs)),
       bk = word_of_bytes (take n (drop (3 * n) bs))\<rparr>)"

text \<open>\<^verbatim>\<open>process->read_bytes(address, &chunk, sizeof(chunk))\<close>, result ignored.\<close>

definition read_chunk :: "'a::len IProcess \<Rightarrow> 'a word \<Rightarrow> 'a malloc_chunk \<Rightarrow> 'a malloc_chunk" where
  "read_chunk proc address buf =
     (case proc address (4 * (LENGTH('a) div 8)) of
        Some bs \<Rightarrow> chunk_of_bytes bs
      | None \<Rightarrow> buf)"

text \<open>\<^verbatim>\<open>process->read_bytes(address, bytes, sizeof(bytes))\<close> for a byte array, result ignored.\<close>

definition read_array :: "'a::len IProcess \<Rightarrow> 'a word \<Rightarrow> nat \<Rightarrow> byte list \<Rightarrow> byte list" where
  "read_array proc address n buf =
     (case proc address n of Some bs \<Rightarrow> bs | None \<Rightarrow> buf)"

text \<open>\<^verbatim>\<open>process->read_bytes(address, &pointer, sizeof(pointer))\<close> with its flag.\<close>

definition read_address :: "'a::len IProcess \<Rightarrow> 'a word \<Rightarrow> 'a word option" where
  "read_address proc address =
     map_option word_of_bytes (proc address (LENGTH('a) div 8))"

subsection \<open>The chunk walk of \<^verbatim>\<open>collect_blocks\<close>\<close>

text \<open>
  The content tag of a busy or free chunk: the ASCII decoder first, then the UTF-16
  decoder, then the signatures compared by \<^verbatim>\<open>memcmp\<close> on the first 16 payload bytes.
  The array \<^verbatim>\<open>quint8 bytes[16]\<close> is declared in the last branch without an initialiser
  and the result of the read into it is ignored: the argument \<open>buf\<close> is what the array
  holds at its declaration, and what is compared after a read that fails.
\<close>

definition memcmp_eq :: "byte list \<Rightarrow> byte list \<Rightarrow> bool" where
  "memcmp_eq buf sig = (take (length sig) buf = sig)"

definition signature_tag :: "byte list \<Rightarrow> string" where
  "signature_tag buf =
     (if memcmp_eq buf [0x89, 0x50, 0x4e, 0x47] then ''PNG IMAGE''
      else if memcmp_eq buf [0x2f, 0x2a, 0x20, 0x58, 0x50, 0x4d, 0x20, 0x2a, 0x2f] then ''XPM IMAGE''
      else if memcmp_eq buf [0x42, 0x5a] then ''BZIP FILE''
      else if memcmp_eq buf [0x1f, 0x9d] then ''COMPRESS FILE''
      else if memcmp_eq buf [0x1f, 0x8b] then ''GZIP FILE''
      else [])"

definition classify ::
  "'a::len edb \<Rightarrow> 'a IProcess \<Rightarrow> 'a word \<Rightarrow> 'a malloc_chunk \<Rightarrow> byte list \<Rightarrow> string" where
  "classify env proc currentChunkAddress cc buf =
     (case get_ascii_string_at_address env (block_start currentChunkAddress)
             (min_string_length env) (chunk_size cc) of
        Some asciiData \<Rightarrow> ''ASCII '' @ [CHR 0x22] @ asciiData @ [CHR 0x22]
      | None \<Rightarrow>
          (case get_utf16_string_at_address env (block_start currentChunkAddress)
                  (min_string_length env) (chunk_size cc) of
             Some utf16Data \<Rightarrow> ''UTF-16 '' @ [CHR 0x22] @ utf16Data @ [CHR 0x22]
           | None \<Rightarrow>
               (let bytes = read_array proc (block_start currentChunkAddress) 16 buf
                in signature_tag bytes)))"

text \<open>
  The local variables of the loop: the address of the current chunk, the two header
  buffers, which are declared before the loop and keep their contents from one run of
  the body to the next, and the result list of the model. The array \<^verbatim>\<open>bytes\<close> is
  declared anew in each run of the body: \<open>bytes s k\<close> is what it holds at its
  declaration in the run that starts with \<open>k\<close> results in the list, which the program
  does not determine.
\<close>

record (overloaded) 'a walk_state =
  currentChunkAddress :: "'a word"
  currentChunk :: "'a malloc_chunk"
  nextChunk :: "'a malloc_chunk"
  bytes :: "nat \<Rightarrow> byte list"
  results :: "'a Result list"

datatype 'a flow = Break 'a | Continue 'a

text \<open>The end of the loop body: the self-reference check and the move to the next chunk.\<close>

definition advance :: "'a::len word \<Rightarrow> 'a walk_state \<Rightarrow> 'a walk_state flow" where
  "advance nextChunkAddress s =
     (if currentChunkAddress s = nextChunkAddress then Break s
      else Continue (s\<lparr>currentChunkAddress := nextChunkAddress\<rparr>))"

text \<open>One run of the body of the \<^verbatim>\<open>while\<close> loop.\<close>

definition collect_blocks_body ::
  "'a::len edb \<Rightarrow> 'a IProcess \<Rightarrow> 'a word \<Rightarrow> 'a word \<Rightarrow> 'a walk_state \<Rightarrow> 'a walk_state flow" where
  "collect_blocks_body env proc start_address end_address s =
     (let cur = currentChunkAddress s;
          cc = read_chunk proc cur (currentChunk s);
          nextChunkAddress = next_chunk cur cc;
          s1 = s\<lparr>currentChunk := cc\<rparr>
      in
        if nextChunkAddress = end_address then
          advance nextChunkAddress
            (s1\<lparr>results := results s @ [new_Result cur (chunk_size cc) Top []]\<rparr>)
        else if nextChunkAddress > end_address \<or> nextChunkAddress < start_address then
          Break s1
        else
          (let nc = read_chunk proc nextChunkAddress (nextChunk s);
               tag = classify env proc cur cc (bytes s (length (results s)));
               r = new_Result cur (chunk_size cc + sizeof_unsigned_int)
                     (if prev_inuse nc then Busy else Free) tag
           in advance nextChunkAddress
                (s1\<lparr>nextChunk := nc, results := results s @ [r]\<rparr>)))"

text \<open>
  The loop. It need not end, so the model is a partial function: \<open>None\<close> is the walk
  that never leaves the loop, \<open>Some rs\<close> the result list when the loop is left.
\<close>

partial_function (option) collect_blocks_loop ::
  "'a::len edb \<Rightarrow> 'a IProcess \<Rightarrow> 'a word \<Rightarrow> 'a word \<Rightarrow> 'a walk_state \<Rightarrow> 'a Result list option" where
  "collect_blocks_loop env proc start_address end_address s =
     (if currentChunkAddress s \<noteq> end_address then
        (case collect_blocks_body env proc start_address end_address s of
           Break s' \<Rightarrow> Some (results s')
         | Continue s' \<Rightarrow> collect_blocks_loop env proc start_address end_address s')
      else Some (results s))"

declare collect_blocks_loop.simps [code]

subsection \<open>Pointer detection\<close>

text \<open>
  The index \<^verbatim>\<open>targets\<close> is a \<^verbatim>\<open>QHash\<close> from addresses to chunk addresses. The two
  loops over a payload step a word pointer by \<^verbatim>\<open>sizeof(edb::address_t)\<close> while it is
  below the payload end; the pointer can wrap around, so they are partial functions
  as well.
\<close>

type_synonym 'a targets = "'a word \<rightharpoonup> 'a word"

partial_function (option) collect_targets_loop ::
  "'a::len word \<Rightarrow> 'a word \<Rightarrow> 'a word \<Rightarrow> 'a targets \<Rightarrow> 'a targets option" where
  "collect_targets_loop result_block block_ptr block_end targets =
     (if block_ptr < block_end then
        collect_targets_loop result_block (block_ptr + sizeof_address) block_end
          (targets(block_ptr \<mapsto> result_block))
      else Some targets)"

declare collect_targets_loop.simps [code]

fun collect_targets :: "'a::len targets \<Rightarrow> 'a Result list \<Rightarrow> 'a targets option" where
  "collect_targets targets [] = Some targets"
| "collect_targets targets (result # rest) =
     (case collect_targets_loop (block result) (block_start (block result))
             (block_start (block result) + size_result result) targets of
        None \<Rightarrow> None
      | Some targets' \<Rightarrow> collect_targets targets' rest)"

text \<open>The annotation appended for a matching word (\<^verbatim>\<open>QT_POINTER_SIZE\<close> is 4 or 8).\<close>

definition pointer_annotation :: "'a::len edb \<Rightarrow> 'a word \<Rightarrow> string" where
  "pointer_annotation env key =
     (if LENGTH('a) div 8 = 4 then ''dword ptr ['' @ format_pointer env key @ ''] |''
      else if LENGTH('a) div 8 = 8 then ''qword ptr ['' @ format_pointer env key @ ''] |''
      else [])"

definition potential_pointer_step ::
  "'a::len edb \<Rightarrow> 'a IProcess \<Rightarrow> 'a targets \<Rightarrow> 'a word \<Rightarrow> 'a Result \<Rightarrow> 'a Result" where
  "potential_pointer_step env proc targets block_ptr result =
     (case read_address proc block_ptr of
        None \<Rightarrow> result
      | Some pointer \<Rightarrow>
          (case targets pointer of
             None \<Rightarrow> result
           | Some target \<Rightarrow>
               result\<lparr>data := data result @ pointer_annotation env pointer,
                      points_to := points_to result @ [target]\<rparr>))"

partial_function (option) potential_pointer_loop ::
  "'a::len edb \<Rightarrow> 'a IProcess \<Rightarrow> 'a targets \<Rightarrow> 'a word \<Rightarrow> 'a word \<Rightarrow> 'a Result \<Rightarrow> 'a Result option" where
  "potential_pointer_loop env proc targets block_ptr block_end result =
     (if block_ptr < block_end then
        potential_pointer_loop env proc targets (block_ptr + sizeof_address) block_end
          (potential_pointer_step env proc targets block_ptr result)
      else Some result)"

declare potential_pointer_loop.simps [code]

text \<open>\<^verbatim>\<open>QString::truncate(size() - 2)\<close>: a negative position truncates to the empty string.\<close>

definition truncate2 :: "string \<Rightarrow> string" where
  "truncate2 d = take (length d - 2) d"

definition process_potential_pointer ::
  "'a::len edb \<Rightarrow> 'a targets \<Rightarrow> 'a Result \<Rightarrow> 'a Result option" where
  "process_potential_pointer env targets result =
     (case process env of
        None \<Rightarrow> Some result
      | Some proc \<Rightarrow>
          if data result = [] then
            (case potential_pointer_loop env proc targets (block_start (block result))
                    (block_start (block result) + size_result result) result of
               None \<Rightarrow> None
             | Some result' \<Rightarrow> Some (result'\<lparr>data := truncate2 (data result')\<rparr>))
          else Some result)"

text \<open>
  \<^verbatim>\<open>QtConcurrent::blockingMap\<close> (or \<^verbatim>\<open>std::for_each\<close>): every result is processed on
  its own, against the same index.
\<close>

fun blockingMap :: "('a \<Rightarrow> 'a option) \<Rightarrow> 'a list \<Rightarrow> 'a list option" where
  "blockingMap f [] = Some []"
| "blockingMap f (x # xs) =
     (case f x of
        None \<Rightarrow> None
      | Some y \<Rightarrow> (case blockingMap f xs of None \<Rightarrow> None | Some ys \<Rightarrow> Some (y # ys)))"

definition detect_pointers :: "'a::len edb \<Rightarrow> 'a Result list \<Rightarrow> 'a Result list option" where
  "detect_pointers env rs =
     (case collect_targets Map.empty rs of
        None \<Rightarrow> None
      | Some targets \<Rightarrow> blockingMap (process_potential_pointer env targets) rs)"

subsection \<open>\<^verbatim>\<open>collect_blocks\<close>\<close>

text \<open>
  The model's result list is cleared first. The two header buffers and the array
  \<^verbatim>\<open>bytes\<close> are uninitialised in the C++: the initial contents of the header buffers
  and the contents of the array at each of its declarations are the last three
  arguments.
\<close>

definition collect_blocks ::
  "'a::len edb \<Rightarrow> 'a word \<Rightarrow> 'a word \<Rightarrow> 'a malloc_chunk \<Rightarrow> 'a malloc_chunk \<Rightarrow> (nat \<Rightarrow> byte list) \<Rightarrow>
     'a Result list option" where
  "collect_blocks env start_address end_address currentChunk0 nextChunk0 bytes0 =
     (case process env of
        None \<Rightarrow> Some []
      | Some proc \<Rightarrow>
          if start_address \<noteq> 0 \<and> end_address \<noteq> 0 then
            (case collect_blocks_loop env proc start_address end_address
                    \<lparr>currentChunkAddress = start_address, currentChunk = currentChunk0,
                     nextChunk = nextChunk0, bytes = bytes0, results = []\<rparr> of
               None \<Rightarrow> None
             | Some rs \<Rightarrow> detect_pointers env rs)
          else Some [])"

subsection \<open>Heap bounds\<close>

text \<open>
  \<^verbatim>\<open>find_heap_start_heuristic\<close>. The distance from the candidate to the tested word is
  written per architecture in the C++ (\<^verbatim>\<open>EDB_X86_64\<close> or not). The tested word
  \<^verbatim>\<open>test_addr\<close> is uninitialised; the function of the model takes its previous
  contents and returns its contents after the call beside the result.
\<close>

definition heap_symbol_distance :: "'a::len word" where
  "heap_symbol_distance =
     (if LENGTH('a) = 64 then
        sizeof_address + sizeof_address + sizeof_address + sizeof_address
      else sizeof_address + sizeof_address + sizeof_address + sizeof_unsigned_int)"

definition find_heap_start_heuristic ::
  "'a::len edb \<Rightarrow> 'a word \<Rightarrow> 'a word \<Rightarrow> 'a word \<Rightarrow> 'a word \<times> 'a word" where
  "find_heap_start_heuristic env end_address offset test_addr0 =
     (let start_address = end_address - offset;
          heap_symbol = start_address - heap_symbol_distance
      in case process env of
           None \<Rightarrow> (0, test_addr0)
         | Some proc \<Rightarrow>
             (let test_addr = (case read_address proc heap_symbol of
                                 Some w \<Rightarrow> w | None \<Rightarrow> test_addr0)
              in if test_addr \<noteq> page_size env then (0, test_addr)
                 else (start_address, test_addr)))"

text \<open>
  The \<^verbatim>\<open>for\<close> loop of \<^verbatim>\<open>do_find\<close> over the offsets; it returns the value left in
  \<^verbatim>\<open>start_address\<close>.
\<close>

partial_function (option) heuristic_loop ::
  "'a::len edb \<Rightarrow> 'a word \<Rightarrow> 'a word \<Rightarrow> 'a word \<Rightarrow> 'a word \<Rightarrow> 'a word option" where
  "heuristic_loop env end_address offset start_address test_addr0 =
     (if offset \<noteq> 0x1000 then
        (case find_heap_start_heuristic env end_address offset test_addr0 of
           (start_address', test_addr) \<Rightarrow>
             if start_address' \<noteq> 0 then Some start_address'
             else heuristic_loop env end_address (offset + sizeof_address) start_address' test_addr)
      else Some start_address)"

declare heuristic_loop.simps [code]

text \<open>The scan of the memory regions for the one named \<^verbatim>\<open>[heap]\<close>.\<close>

fun heap_region :: "'a::len IRegion list \<Rightarrow> 'a word \<Rightarrow> 'a word \<Rightarrow> 'a word \<times> 'a word" where
  "heap_region [] start_address end_address = (start_address, end_address)"
| "heap_region (region # rest) start_address end_address =
     (if region_name region = ''[heap]'' then
        (if start_address = 0 then region_start region else start_address,
         if end_address = 0 then region_end region else end_address)
      else heap_region rest start_address end_address)"

text \<open>
  \<^verbatim>\<open>do_find\<close> up to the call of \<^verbatim>\<open>collect_blocks\<close>: the heap bounds, or \<open>None\<close> for
  the message that the bounds could not be calculated (and when there is no
  process). The outer \<open>option\<close> is the termination of the offset loop. The library
  names come from \<^verbatim>\<open>get_library_names\<close>.
\<close>

definition do_find_bounds ::
  "'a::len edb \<Rightarrow> string \<Rightarrow> string \<Rightarrow> 'a word \<Rightarrow> ('a word \<times> 'a word) option option" where
  "do_find_bounds env libcName ldName test_addr0 =
     (case process env of
        None \<Rightarrow> Some None
      | Some proc \<Rightarrow>
          (let end_address = (case symbol_find env (libcName @ ''::__curbrk'') of
                                Some a \<Rightarrow> a | None \<Rightarrow> 0)
           in case (case symbol_find env (ldName @ ''::__curbrk'') of
                      Some a \<Rightarrow> Some a
                    | None \<Rightarrow> heuristic_loop env end_address 0 0 test_addr0) of
                None \<Rightarrow> None
              | Some start_address \<Rightarrow>
                  (let (start1, end1) =
                         (if start_address \<noteq> 0 \<and> end_address \<noteq> 0 then
                            (let end' = (case read_address proc end_address of
                                           Some w \<Rightarrow> w | None \<Rightarrow> end_address);
                                 start' = (case read_address proc start_address of
                                             Some w \<Rightarrow> w | None \<Rightarrow> start_address)
                             in (start', end'))
                          else (start_address, end_address));
                       (start2, end2) =
                         (if start1 = 0 \<or> end1 = 0 then heap_region (regions env) start1 end1
                          else (start1, end1))
                   in if start2 = 0 \<or> end2 = 0 then Some None
                      else Some (Some (start2, end2)))))"

subsection \<open>The graph of \<^verbatim>\<open>on_btnGraph_clicked\<close>\<close>

text \<open>
  A \<^verbatim>\<open>const Result *\<close> points into the result vector: it is the index of an element,
  or \<open>None\<close> for the null pointer. A \<^verbatim>\<open>node_t *\<close> is the node created for a chunk
  address (the node's name is the formatted address), or \<open>None\<close> for the null pointer.
  The fill colour and style of a node only matter to the display and are left out.
  Dereferencing a pointer to no result is the error \<open>InvalidPointer\<close>.
\<close>

datatype graph_error = GraphTooLarge | InvalidPointer

type_synonym Result_ptr = "nat option"

type_synonym 'a node_ptr = "'a word option"

text \<open>
  \<^verbatim>\<open>result_map\<close>: every result is inserted under its address, a later one replacing
  an earlier one with the same address.
\<close>

definition result_map :: "'a::len Result list \<Rightarrow> 'a word \<rightharpoonup> nat" where
  "result_map rs = foldl (\<lambda>m (i, r). m(block r \<mapsto> i)) Map.empty (enumerate 0 rs)"

text \<open>The seeds: every selected row is pushed and marked as seen.\<close>

definition seed :: "nat list \<Rightarrow> Result_ptr set \<times> Result_ptr list" where
  "seed sel = foldl (\<lambda>st item. (insert (Some item) (fst st), Some item # snd st)) ({}, []) sel"

text \<open>
  One run of the inner loop over \<^verbatim>\<open>points_to\<close>, on the pair of \<^verbatim>\<open>seen_results\<close> and
  \<^verbatim>\<open>result_stack\<close> (the top of the stack is the head of the list).
  \<^verbatim>\<open>result_map[pointer]\<close> is the null pointer for an address that is not a key.
\<close>

definition visit ::
  "'a::len Result list \<Rightarrow> Result_ptr set \<times> Result_ptr list \<Rightarrow> 'a word \<Rightarrow>
     Result_ptr set \<times> Result_ptr list" where
  "visit rs st pointer =
     (let next_result = result_map rs pointer
      in if next_result \<notin> fst st then (insert next_result (fst st), next_result # snd st)
         else st)"

text \<open>The pointers the traversal can ever hold, and the measure of its termination.\<close>

definition all_pointers :: "'a::len Result list \<Rightarrow> Result_ptr set" where
  "all_pointers rs = insert None (Some ` {..<length rs})"

definition traversal_measure :: "'a::len Result list \<Rightarrow> Result_ptr set \<times> Result_ptr list \<Rightarrow> nat" where
  "traversal_measure rs st = 2 * card (all_pointers rs - fst st) + length (snd st)"

text \<open>
  The \<^verbatim>\<open>while\<close> loop over the stack. \<^verbatim>\<open>nodes\<close> is a \<^verbatim>\<open>QMap\<close> from chunk addresses to
  nodes, kept as an association list with one entry for each key.
\<close>

function graph_traversal ::
  "'a::len Result list \<Rightarrow> Result_ptr list \<Rightarrow> Result_ptr set \<Rightarrow> ('a word \<times> 'a node_ptr) list \<Rightarrow>
     graph_error + ('a word \<times> 'a node_ptr) list" where
  "graph_traversal rs [] seen_results nodes = Inr nodes"
| "graph_traversal rs (None # result_stack) seen_results nodes = Inl InvalidPointer"
| "graph_traversal rs (Some i # result_stack) seen_results nodes =
     (if i < length rs then
        (let result = rs ! i;
             st = foldl (visit rs) (seen_results, result_stack) (points_to result)
         in graph_traversal rs (snd st) (fst st)
              (AList.update (block result) (Some (block result)) nodes))
      else Inl InvalidPointer)"
  by pat_completeness auto
termination
proof (relation "measure (\<lambda>(rs, stack, seen, nodes). traversal_measure rs (seen, stack))",
    goal_cases)
  case 1
  show ?case by simp
next
  case (2 rs i result_stack seen_results nodes result st)
  have app: "result_map (xs @ [x]) = (result_map xs)(block x \<mapsto> length xs)"
    for xs :: "'a Result list" and x
    by (simp add: result_map_def enumerate_append_eq)
  have bound: "result_map xs a = Some k \<Longrightarrow> k < length xs"
    for xs :: "'a Result list" and a k
  proof (induction xs arbitrary: k rule: rev_induct)
    case Nil
    then show ?case by (simp add: result_map_def)
  next
    case (snoc x xs)
    then show ?case by (auto simp: app less_Suc_eq split: if_splits)
  qed
  have member: "result_map rs a \<in> all_pointers rs" for a
    by (cases "result_map rs a") (auto simp: all_pointers_def dest: bound)
  have one: "traversal_measure rs (visit rs s p) \<le> traversal_measure rs s" for s p
  proof (cases "result_map rs p \<in> fst s")
    case True
    then show ?thesis by (simp add: visit_def)
  next
    case False
    have "finite (all_pointers rs - fst s)" by (simp add: all_pointers_def)
    moreover from False member [of p] have "result_map rs p \<in> all_pointers rs - fst s"
      by simp
    ultimately have "card (all_pointers rs - fst s - {result_map rs p})
                     < card (all_pointers rs - fst s)"
      by (rule card_Diff1_less)
    moreover have "all_pointers rs - insert (result_map rs p) (fst s)
                   = all_pointers rs - fst s - {result_map rs p}"
      by auto
    ultimately show ?thesis using False
      by (simp add: visit_def traversal_measure_def Let_def)
  qed
  have "traversal_measure rs (foldl (visit rs) s ps) \<le> traversal_measure rs s" for s ps
  proof (induction ps arbitrary: s)
    case Nil
    show ?case by simp
  next
    case (Cons p ps)
    have "traversal_measure rs (foldl (visit rs) (visit rs s p) ps)
          \<le> traversal_measure rs (visit rs s p)"
      by (rule Cons.IH)
    also have "\<dots> \<le> traversal_measure rs s" by (rule one)
    finally show ?case by simp
  qed
  then have "traversal_measure rs st \<le> traversal_measure rs (seen_results, result_stack)"
    unfolding 2 .
  also have "\<dots> < traversal_measure rs (seen_results, Some i # result_stack)"
    by (simp add: traversal_measure_def)
  finally show ?case by simp
qed

text \<open>
  \<^verbatim>\<open>nodes[key]\<close> on the non-constant map: a key that is absent is inserted with the
  null node.
\<close>

definition nodes_at ::
  "('a::len word \<times> 'a node_ptr) list \<Rightarrow> 'a word \<Rightarrow> 'a node_ptr \<times> ('a word \<times> 'a node_ptr) list" where
  "nodes_at nodes key =
     (case map_of nodes key of
        Some n \<Rightarrow> (n, nodes)
      | None \<Rightarrow> (None, AList.update key None nodes))"

text \<open>
  The loop that adds the edges. The C++ iterates over the values of \<^verbatim>\<open>result_map\<close> in
  the order of the hash table, which is not specified: the order of the keys is the
  argument \<open>hash_order\<close>. The state is the pair of \<^verbatim>\<open>nodes\<close> and the edges added so far.
\<close>

definition add_edge ::
  "'a::len word \<Rightarrow> ('a word \<times> 'a node_ptr) list \<times> ('a node_ptr \<times> 'a node_ptr) list \<Rightarrow> 'a word \<Rightarrow>
     ('a word \<times> 'a node_ptr) list \<times> ('a node_ptr \<times> 'a node_ptr) list" where
  "add_edge addr st pointer =
     (let (tail_node, nodes1) = nodes_at (fst st) addr;
          (head_node, nodes2) = nodes_at nodes1 pointer
      in (nodes2, snd st @ [(tail_node, head_node)]))"

definition add_edges ::
  "'a::len Result list \<Rightarrow> ('a word \<times> 'a node_ptr) list \<times> ('a node_ptr \<times> 'a node_ptr) list \<Rightarrow> 'a word \<Rightarrow>
     ('a word \<times> 'a node_ptr) list \<times> ('a node_ptr \<times> 'a node_ptr) list" where
  "add_edges rs st addr =
     (case result_map rs addr of
        None \<Rightarrow> st
      | Some i \<Rightarrow>
          if map_of (fst st) addr \<noteq> None then foldl (add_edge addr) st (points_to (rs ! i))
          else st)"

record (overloaded) 'a graph =
  graph_nodes :: "'a word list"
  graph_edges :: "('a node_ptr \<times> 'a node_ptr) list"

text \<open>
  The handler: the result vector, the selected rows and the order of the hash table
  in; the error or the graph handed to the display out. The graph has one node for
  each key of \<^verbatim>\<open>nodes\<close> after the traversal.
\<close>

definition on_btnGraph_clicked ::
  "'a::len Result list \<Rightarrow> nat list \<Rightarrow> 'a word list \<Rightarrow> graph_error + 'a graph" where
  "on_btnGraph_clicked rs sel hash_order =
     (let st = seed sel in
      case graph_traversal rs (snd st) (fst st) [] of
        Inl e \<Rightarrow> Inl e
      | Inr nodes \<Rightarrow>
          if length nodes > 3000 then Inl GraphTooLarge
          else Inr \<lparr>graph_nodes = map fst nodes,
                    graph_edges = snd (foldl (add_edges rs) (nodes, []) hash_order)\<rparr>)"

section \<open>Notions used in the statements\<close>

text \<open>
  The chunk that one run of the loop body appends to the result list: the top chunk
  when the next address is the heap end, a busy or free chunk otherwise.
\<close>

definition emitted_top :: "'a::len IProcess \<Rightarrow> 'a walk_state \<Rightarrow> 'a Result" where
  "emitted_top proc s =
     new_Result (currentChunkAddress s)
       (chunk_size (read_chunk proc (currentChunkAddress s) (currentChunk s))) Top []"

definition emitted_chunk :: "'a::len edb \<Rightarrow> 'a IProcess \<Rightarrow> 'a walk_state \<Rightarrow> 'a Result" where
  "emitted_chunk env proc s =
     (let cur = currentChunkAddress s;
          cc = read_chunk proc cur (currentChunk s);
          nc = read_chunk proc (next_chunk cur cc) (nextChunk s)
      in new_Result cur (chunk_size cc + sizeof_unsigned_int)
           (if prev_inuse nc then Busy else Free)
           (classify env proc cur cc (bytes s (length (results s)))))"

text \<open>Every entry of the index maps a payload-word address of a chunk to the chunk's address.\<close>

definition indexed :: "'a::len Result list \<Rightarrow> 'a targets \<Rightarrow> bool" where
  "indexed rs t =
     (\<forall>k b. t k = Some b \<longrightarrow>
        (\<exists>c\<in>set rs. b = block c \<and> k < block_start (block c) + size_result c \<and>
           (\<exists>i. k = block_start (block c) + of_nat i * sizeof_address)))"

text \<open>
  The scan of the offsets as a list function, to compare the loop with: the offsets
  are the multiples of the pointer size from 0 up to, and not including, \<open>0x1000\<close>;
  the first candidate that \<^verbatim>\<open>find_heap_start_heuristic\<close> returns as non-zero is the
  result, and the result is 0 when there is none.
\<close>

fun first_accepted ::
  "'a::len edb \<Rightarrow> 'a word \<Rightarrow> 'a word \<Rightarrow> 'a word \<Rightarrow> 'a word list \<Rightarrow> 'a word" where
  "first_accepted env end_address start_address test_addr [] = start_address"
| "first_accepted env end_address start_address test_addr (offset # rest) =
     (case find_heap_start_heuristic env end_address offset test_addr of
        (start_address', test_addr') \<Rightarrow>
          if start_address' \<noteq> 0 then start_address'
          else first_accepted env end_address start_address' test_addr' rest)"

definition heuristic_offsets :: "'a::len word list" where
  "heuristic_offsets =
     map (\<lambda>k. of_nat k * sizeof_address) [0..<0x1000 div (LENGTH('a) div 8)]"

text \<open>The results that a result points to, and the results reachable from the seeds.\<close>

definition successors :: "'a::len Result list \<Rightarrow> nat \<Rightarrow> Result_ptr set" where
  "successors rs i = result_map rs ` set (points_to (rs ! i))"

definition result_edges :: "'a::len Result list \<Rightarrow> (Result_ptr \<times> Result_ptr) set" where
  "result_edges rs = {(Some i, q) | i q. i < length rs \<and> q \<in> successors rs i}"

definition reachable_results :: "'a::len Result list \<Rightarrow> nat list \<Rightarrow> Result_ptr set" where
  "reachable_results rs sel = (result_edges rs)\<^sup>* `` (Some ` set sel)"

definition visited_blocks :: "'a::len Result list \<Rightarrow> nat list \<Rightarrow> 'a word set" where
  "visited_blocks rs sel = {block (rs ! i) | i. Some i \<in> reachable_results rs sel}"

text \<open>
  The invariant of the traversal, with the set \<open>D\<close> of the results popped so far:
  the seen results are the stack and the popped ones, the successors of a popped
  result are seen, the keys of \<open>nodes\<close> are the addresses of the popped results,
  every node stored is the node of its key, and everything is reachable.
\<close>

definition traversal_inv ::
  "'a::len Result list \<Rightarrow> nat list \<Rightarrow> Result_ptr list \<Rightarrow> Result_ptr set \<Rightarrow>
     ('a word \<times> 'a node_ptr) list \<Rightarrow> Result_ptr set \<Rightarrow> bool" where
  "traversal_inv rs sel stack seen nodes D \<longleftrightarrow>
     seen = set stack \<union> D \<and>
     Some ` set sel \<subseteq> seen \<and>
     seen \<subseteq> reachable_results rs sel \<and>
     (\<forall>p\<in>D. \<exists>i. p = Some i \<and> i < length rs \<and> successors rs i \<subseteq> seen) \<and>
     fst ` set nodes = {block (rs ! i) | i. Some i \<in> D} \<and>
     distinct (map fst nodes) \<and>
     (\<forall>(k, v)\<in>set nodes. v = Some k)"



text \<open>
  The address at which the walk takes the chunk after an emitted busy or free chunk
  to be: the chunk's address plus the chunk size that the walk used, which is the
  recorded size less \<^verbatim>\<open>sizeof(unsigned int)\<close>.
\<close>

definition following_chunk :: "'a::len Result \<Rightarrow> 'a word" where
  "following_chunk r = block r + (size_result r - sizeof_unsigned_int)"

text \<open>
  The addresses of the chunks that the walk emits from a chunk address on, as long as the
  headers can be read: the relation follows the branches of the loop body.
\<close>

inductive walk_from ::
  "'a::len IProcess \<Rightarrow> 'a word \<Rightarrow> 'a word \<Rightarrow> 'a word \<Rightarrow> 'a word list \<Rightarrow> bool"
  for proc :: "'a::len IProcess" and sa ea :: "'a word" where
  at_end: "walk_from proc sa ea ea []"
| top: "a \<noteq> ea \<Longrightarrow> proc a (4 * (LENGTH('a) div 8)) = Some h \<Longrightarrow>
        next_chunk a (chunk_of_bytes h) = ea \<Longrightarrow> walk_from proc sa ea a [a]"
| broken: "a \<noteq> ea \<Longrightarrow> proc a (4 * (LENGTH('a) div 8)) = Some h \<Longrightarrow>
        next_chunk a (chunk_of_bytes h) \<noteq> ea \<Longrightarrow>
        next_chunk a (chunk_of_bytes h) > ea \<or> next_chunk a (chunk_of_bytes h) < sa \<Longrightarrow>
        walk_from proc sa ea a []"
| self: "a \<noteq> ea \<Longrightarrow> proc a (4 * (LENGTH('a) div 8)) = Some h \<Longrightarrow>
        next_chunk a (chunk_of_bytes h) \<noteq> ea \<Longrightarrow>
        \<not> (next_chunk a (chunk_of_bytes h) > ea \<or> next_chunk a (chunk_of_bytes h) < sa) \<Longrightarrow>
        next_chunk a (chunk_of_bytes h) = a \<Longrightarrow> walk_from proc sa ea a [a]"
| step: "a \<noteq> ea \<Longrightarrow> proc a (4 * (LENGTH('a) div 8)) = Some h \<Longrightarrow>
        next_chunk a (chunk_of_bytes h) \<noteq> ea \<Longrightarrow>
        \<not> (next_chunk a (chunk_of_bytes h) > ea \<or> next_chunk a (chunk_of_bytes h) < sa) \<Longrightarrow>
        next_chunk a (chunk_of_bytes h) \<noteq> a \<Longrightarrow>
        walk_from proc sa ea (next_chunk a (chunk_of_bytes h)) bs \<Longrightarrow>
        walk_from proc sa ea a (a # bs)"

section \<open>Example heaps\<close>

text \<open>
  A process whose readable memory is one block of bytes at a base address: a read
  succeeds when all of its bytes are in the block. Words are stored little-endian.
\<close>

fun bytes_of_word :: "nat \<Rightarrow> 'a::len word \<Rightarrow> byte list" where
  "bytes_of_word 0 w = []"
| "bytes_of_word (Suc n) w = ucast w # bytes_of_word n (drop_bit 8 w)"

definition words64 :: "64 word list \<Rightarrow> byte list" where
  "words64 ws = concat (map (bytes_of_word 8) ws)"

definition memory_process :: "'a::len word \<Rightarrow> byte list \<Rightarrow> 'a IProcess" where
  "memory_process base mem address n =
     (if base \<le> address \<and> unat (address - base) + n \<le> length mem
      then Some (take n (drop (unat (address - base)) mem)) else None)"

text \<open>An environment whose string decoders never match.\<close>

definition plain_env :: "'a::len IProcess \<Rightarrow> 'a edb" where
  "plain_env proc =
     \<lparr>process = Some proc,
      get_ascii_string_at_address = (\<lambda>_ _ _. None),
      get_utf16_string_at_address = (\<lambda>_ _ _. None),
      min_string_length = 4,
      page_size = 4096,
      format_pointer = (\<lambda>_. ''0x''),
      symbol_find = (\<lambda>_. None),
      regions = []\<rparr>"

definition zero_chunk :: "'a::len malloc_chunk" where
  "zero_chunk = \<lparr>prev_size = 0, size_field = 0, fd = 0, bk = 0\<rparr>"

text \<open>The array \<^verbatim>\<open>bytes\<close> holding zeros at each of its declarations.\<close>

definition zero_bytes :: "nat \<Rightarrow> byte list" where
  "zero_bytes k = replicate 16 0"

definition start_state :: "'a::len word \<Rightarrow> 'a walk_state" where
  "start_state a =
     \<lparr>currentChunkAddress = a, currentChunk = zero_chunk, nextChunk = zero_chunk,
      bytes = zero_bytes, results = []\<rparr>"

text \<open>
  A well-formed 64-bit heap from \<open>0x1000\<close> to \<open>0x1080\<close>: a busy chunk whose first
  payload word points into the second chunk, a free chunk that starts with the PNG
  signature followed by a pointer into the first chunk, a busy chunk whose payload
  points into the first chunk, and the top.
\<close>

definition heap64 :: "byte list" where
  "heap64 = words64
     [0, 0x21, 0x1030, 0,
      0, 0x21, 0x474e5089, 0x1010,
      0, 0x20, 0, 0x1010,
      0, 0x21, 0, 0]"

definition proc64 :: "64 IProcess" where
  "proc64 = memory_process 0x1000 heap64"

definition walk64 :: "64 Result list" where
  "walk64 =
     [new_Result 0x1000 0x24 Busy [],
      new_Result 0x1020 0x24 Free ''PNG IMAGE'',
      new_Result 0x1040 0x24 Busy [],
      new_Result 0x1060 0x20 Top []]"

text \<open>The chunks of this heap after pointer detection.\<close>

definition graph64 :: "64 Result list" where
  "graph64 =
     [\<lparr>block = 0x1000, size_result = 0x24, type_result = Busy,
       data = ''qword ptr [0x]'', points_to = [0x1020]\<rparr>,
      new_Result 0x1020 0x24 Free ''PNG IMAGE'',
      \<lparr>block = 0x1040, size_result = 0x24, type_result = Busy,
       data = ''qword ptr [0x]'', points_to = [0x1000]\<rparr>,
      new_Result 0x1060 0x20 Top []]"







text \<open>
  Two heaps from \<open>0x1000\<close> to \<open>0x1080\<close> of which the bytes below \<open>0x1060\<close> can be read
  and nothing from \<open>0x1060\<close> on: a chunk of size \<open>0x40\<close> at \<open>0x1000\<close> and a chunk of
  size \<open>0x20\<close> at \<open>0x1040\<close>, whose following header, at \<open>0x1060\<close>, cannot be read. The
  two heaps differ in the \<^verbatim>\<open>PREV_INUSE\<close> bit of the size field at \<open>0x1048\<close> only.
\<close>

definition proc_cut_set :: "64 IProcess" where
  "proc_cut_set = memory_process 0x1000 (words64 [0, 0x41, 0, 0, 0, 0, 0, 0, 0, 0x21, 0, 0])"

definition proc_cut_clear :: "64 IProcess" where
  "proc_cut_clear = memory_process 0x1000 (words64 [0, 0x41, 0, 0, 0, 0, 0, 0, 0, 0x20, 0, 0])"

definition walk_cut_set :: "64 Result list" where
  "walk_cut_set =
     [new_Result 0x1000 0x44 Busy [],
      new_Result 0x1040 0x24 Busy [],
      new_Result 0x1060 0x20 Top []]"

definition walk_cut_clear :: "64 Result list" where
  "walk_cut_clear =
     [new_Result 0x1000 0x44 Free [],
      new_Result 0x1040 0x24 Free [],
      new_Result 0x1060 0x20 Top []]"




text \<open>
  A corrupted heap: the size field of the second header is \<open>- 0x20\<close> (with
  \<^verbatim>\<open>PREV_INUSE\<close>), so that the chunk after the second one is the first one.
\<close>

definition proc_cycle :: "64 IProcess" where
  "proc_cycle = memory_process 0x1000 (words64 [0, 0x21, 0, 0, 0, 0xFFFFFFFFFFFFFFE1, 0, 0])"

text \<open>A corrupted heap whose first chunk has size 0 (with \<^verbatim>\<open>PREV_INUSE\<close>).\<close>

definition proc_self :: "64 IProcess" where
  "proc_self = memory_process 0x1000 (words64 [0, 0x1, 0, 0])"

text \<open>The memory around a break symbol: the page size is stored at \<open>0x8000\<close>.\<close>

definition proc_brk :: "64 IProcess" where
  "proc_brk = memory_process 0x8000 (words64 [0x1000, 0, 0, 0, 0, 0])"

text \<open>A chunk list of 3001 busy chunks without edges, at the addresses 0 to 3000.\<close>

definition many_results :: "64 Result list" where
  "many_results = map (\<lambda>k. new_Result (of_nat k) 0 Busy []) [0..<3001]"

section \<open>The chunk walk\<close>

subsection \<open>Reads\<close>

lemma read_chunk_Some:
  "proc a (4 * (LENGTH('a) div 8)) = Some bs \<Longrightarrow>
   read_chunk proc (a::'a::len word) buf = chunk_of_bytes bs"
  by (simp add: read_chunk_def)


subsection \<open>An invariant rule for the loop\<close>

lemma collect_blocks_loop_rule:
  assumes run: "collect_blocks_loop env proc sa ea s = Some rs"
    and init: "I s"
    and cont: "\<And>s s'. I s \<Longrightarrow> currentChunkAddress s \<noteq> ea \<Longrightarrow>
                 collect_blocks_body env proc sa ea s = Continue s' \<Longrightarrow> I s'"
    and brk: "\<And>s s'. I s \<Longrightarrow> currentChunkAddress s \<noteq> ea \<Longrightarrow>
                 collect_blocks_body env proc sa ea s = Break s' \<Longrightarrow> Q (results s')"
    and exit: "\<And>s. I s \<Longrightarrow> currentChunkAddress s = ea \<Longrightarrow> Q (results s)"
  shows "Q rs"
proof -
  have "env' = env \<and> proc' = proc \<and> sa' = sa \<and> ea' = ea \<and> I s' \<longrightarrow> Q rs'"
    if r: "collect_blocks_loop env' proc' sa' ea' s' = Some rs'" for env' proc' sa' ea' s' rs'
  proof (rule collect_blocks_loop.raw_induct
      [where P = "\<lambda>env' proc' sa' ea' s rs.
         env' = env \<and> proc' = proc \<and> sa' = sa \<and> ea' = ea \<and> I s \<longrightarrow> Q rs", OF _ r])
    fix loop env' proc' sa' ea' s rs
    assume IH: "\<And>env' proc' sa' ea' s rs. loop env' proc' sa' ea' s = Some rs \<Longrightarrow>
                  env' = env \<and> proc' = proc \<and> sa' = sa \<and> ea' = ea \<and> I s \<longrightarrow> Q rs"
      and unfolded: "(if currentChunkAddress s \<noteq> ea' then
                        (case collect_blocks_body env' proc' sa' ea' s of
                           Break s' \<Rightarrow> Some (results s')
                         | Continue s' \<Rightarrow> loop env' proc' sa' ea' s')
                      else Some (results s)) = Some rs"
    show "env' = env \<and> proc' = proc \<and> sa' = sa \<and> ea' = ea \<and> I s \<longrightarrow> Q rs"
    proof (intro impI, elim conjE)
      assume eqs: "env' = env" "proc' = proc" "sa' = sa" "ea' = ea" and inv: "I s"
      show "Q rs"
      proof (cases "currentChunkAddress s = ea")
        case True
        with unfolded eqs have "rs = results s" by simp
        with exit [OF inv True] show ?thesis by simp
      next
        case False
        show ?thesis
        proof (cases "collect_blocks_body env proc sa ea s")
          case (Break s')
          with unfolded eqs False have "rs = results s'" by simp
          with brk [OF inv False Break] show ?thesis by simp
        next
          case (Continue s')
          with unfolded eqs False have "loop env proc sa ea s' = Some rs" by simp
          from IH [OF this] cont [OF inv False Continue] show ?thesis by simp
        qed
      qed
    qed
  qed
  with run init show ?thesis by blast
qed

subsection \<open>What one run of the body adds to the result list\<close>

lemma body_results:
  assumes "collect_blocks_body env proc sa ea s = Break s' \<or>
           collect_blocks_body env proc sa ea s = Continue s'"
  shows "results s' = results s \<or>
         (next_chunk (currentChunkAddress s)
            (read_chunk proc (currentChunkAddress s) (currentChunk s)) = ea \<and>
          results s' = results s @ [emitted_top proc s]) \<or>
         (next_chunk (currentChunkAddress s)
            (read_chunk proc (currentChunkAddress s) (currentChunk s)) \<noteq> ea \<and>
          results s' = results s @ [emitted_chunk env proc s])"
  using assms
  by (auto simp: collect_blocks_body_def Let_def advance_def emitted_top_def emitted_chunk_def
      split: if_splits prod.splits)

lemma loop_results_all:
  assumes run: "collect_blocks_loop env proc sa ea s = Some rs"
    and init: "\<forall>r\<in>set (results s). Q r"
    and top: "\<And>s. next_chunk (currentChunkAddress s)
            (read_chunk proc (currentChunkAddress s) (currentChunk s)) = ea \<Longrightarrow>
            Q (emitted_top proc s)"
    and chunk: "\<And>s. next_chunk (currentChunkAddress s)
            (read_chunk proc (currentChunkAddress s) (currentChunk s)) \<noteq> ea \<Longrightarrow>
            Q (emitted_chunk env proc s)"
  shows "\<forall>r\<in>set rs. Q r"
proof (rule collect_blocks_loop_rule [OF run, where I = "\<lambda>s. \<forall>r\<in>set (results s). Q r"])
  show "\<forall>r\<in>set (results s). Q r" by (rule init)
next
  fix s s'
  assume "\<forall>r\<in>set (results s). Q r" "collect_blocks_body env proc sa ea s = Continue s'"
  with body_results [of env proc sa ea s s'] top [of s] chunk [of s]
  show "\<forall>r\<in>set (results s'). Q r" by auto
next
  fix s s'
  assume "\<forall>r\<in>set (results s). Q r" "collect_blocks_body env proc sa ea s = Break s'"
  with body_results [of env proc sa ea s s'] top [of s] chunk [of s]
  show "\<forall>r\<in>set (results s'). Q r" by auto
qed simp






subsection \<open>The example walks\<close>

lemma walk64_run:
  "collect_blocks_loop (plain_env proc64) proc64 0x1000 0x1080 (start_state 0x1000) = Some walk64"
  by code_simp



subsection \<open>Failing reads\<close>




subsection \<open>Termination\<close>

lemma proc_cycle_1000: "chunk_size (read_chunk proc_cycle 0x1000 buf) = 0x20"
proof -
  have "proc_cycle 0x1000 (4 * (LENGTH(64) div 8)) = Some (words64 [0, 0x21, 0, 0])"
    by code_simp
  then have "read_chunk proc_cycle 0x1000 buf = chunk_of_bytes (words64 [0, 0x21, 0, 0])"
    by (rule read_chunk_Some)
  moreover have "chunk_size (chunk_of_bytes (words64 [0, 0x21, 0, 0]) :: 64 malloc_chunk) = 0x20"
    by code_simp
  ultimately show ?thesis by simp
qed

lemma proc_cycle_1020: "chunk_size (read_chunk proc_cycle 0x1020 buf) = 0xFFFFFFFFFFFFFFE0"
proof -
  have "proc_cycle 0x1020 (4 * (LENGTH(64) div 8))
          = Some (words64 [0, 0xFFFFFFFFFFFFFFE1, 0, 0])"
    by code_simp
  then have "read_chunk proc_cycle 0x1020 buf
               = chunk_of_bytes (words64 [0, 0xFFFFFFFFFFFFFFE1, 0, 0])"
    by (rule read_chunk_Some)
  moreover have "chunk_size (chunk_of_bytes (words64 [0, 0xFFFFFFFFFFFFFFE1, 0, 0])
                   :: 64 malloc_chunk) = 0xFFFFFFFFFFFFFFE0"
    by code_simp
  ultimately show ?thesis by simp
qed

lemma body_cycle:
  assumes "currentChunkAddress s = 0x1000 \<or> currentChunkAddress s = 0x1020"
  shows "\<exists>s'. collect_blocks_body env proc_cycle 0x1000 0x2000 s = Continue s' \<and>
              (currentChunkAddress s' = 0x1000 \<or> currentChunkAddress s' = 0x1020)"
  using assms
  by (auto simp: collect_blocks_body_def Let_def advance_def next_chunk_def
        proc_cycle_1000 proc_cycle_1020 split: prod.splits)

lemma cycle_never_returns:
  assumes "currentChunkAddress s = 0x1000 \<or> currentChunkAddress s = 0x1020"
  shows "collect_blocks_loop env proc_cycle 0x1000 0x2000 s = None"
proof (rule ccontr)
  assume "collect_blocks_loop env proc_cycle 0x1000 0x2000 s \<noteq> None"
  then obtain rs where run: "collect_blocks_loop env proc_cycle 0x1000 0x2000 s = Some rs"
    by auto
  have "False"
  proof (rule collect_blocks_loop_rule [OF run,
        where I = "\<lambda>s. currentChunkAddress s = 0x1000 \<or> currentChunkAddress s = 0x1020"
          and Q = "\<lambda>_. False"])
    show "currentChunkAddress s = 0x1000 \<or> currentChunkAddress s = 0x1020" by (rule assms)
  next
    fix s s' :: "64 walk_state"
    assume "currentChunkAddress s = 0x1000 \<or> currentChunkAddress s = 0x1020"
      and "collect_blocks_body env proc_cycle 0x1000 0x2000 s = Continue s'"
    with body_cycle [of s env]
    show "currentChunkAddress s' = 0x1000 \<or> currentChunkAddress s' = 0x1020" by auto
  next
    fix s s' :: "64 walk_state"
    assume "currentChunkAddress s = 0x1000 \<or> currentChunkAddress s = 0x1020"
      and "collect_blocks_body env proc_cycle 0x1000 0x2000 s = Break s'"
    with body_cycle [of s env] show False by auto
  next
    fix s :: "64 walk_state"
    assume "currentChunkAddress s = 0x1000 \<or> currentChunkAddress s = 0x1020"
      and "currentChunkAddress s = 0x2000"
    then show False by auto
  qed
  then show False .
qed

text \<open>
  C3: the walk does not always end. On the corrupted heap \<open>proc_cycle\<close>, with
  bounds \<open>0x1000 < 0x2000\<close>, the chunk after the one at \<open>0x1020\<close> is the one at
  \<open>0x1000\<close>: every next address is within the bounds and differs from the current
  address, so neither check of the loop stops the walk, and \<^verbatim>\<open>collect_blocks\<close>
  never returns.
\<close>

theorem walk_cycle_never_returns:
  "(0x1000 :: 64 word) < 0x2000 \<and>
   collect_blocks_loop (plain_env proc_cycle) proc_cycle 0x1000 0x2000 (start_state 0x1000)
     = None \<and>
   collect_blocks (plain_env proc_cycle) 0x1000 0x2000 zero_chunk zero_chunk zero_bytes = None"
proof -
  have "currentChunkAddress (start_state (0x1000 :: 64 word)) = 0x1000"
    by (simp add: start_state_def)
  then have loop: "collect_blocks_loop (plain_env proc_cycle) proc_cycle 0x1000 0x2000
                     (start_state 0x1000) = None"
    by (simp add: cycle_never_returns)
  then have "collect_blocks (plain_env proc_cycle) 0x1000 0x2000 zero_chunk zero_chunk zero_bytes = None"
    by (simp add: collect_blocks_def plain_env_def start_state_def)
  with loop show ?thesis by simp
qed

subsection \<open>Size and state of the chunks of the walk\<close>

lemma loop_recorded_size:
  fixes proc :: "'a::len IProcess"
  assumes "collect_blocks_loop env proc sa ea s = Some rs" and "results s = []"
  shows "\<forall>r\<in>set rs. \<forall>h. proc (block r) (4 * (LENGTH('a) div 8)) = Some h \<longrightarrow>
           size_result r =
             (if type_result r = Top then chunk_size (chunk_of_bytes h :: 'a malloc_chunk)
              else chunk_size (chunk_of_bytes h :: 'a malloc_chunk) + sizeof_unsigned_int)"
  by (rule loop_results_all [OF assms(1)])
     (auto simp: assms(2) emitted_top_def emitted_chunk_def new_Result_def Let_def
        read_chunk_def)

lemma loop_busy_iff:
  fixes proc :: "'a::len IProcess"
  assumes "collect_blocks_loop env proc sa ea s = Some rs" and "results s = []"
  shows "\<forall>r\<in>set rs. type_result r \<noteq> Top \<longrightarrow>
           (\<forall>h'. proc (block r + (size_result r - sizeof_unsigned_int))
                    (4 * (LENGTH('a) div 8)) = Some h' \<longrightarrow>
              (type_result r = Busy \<longleftrightarrow> prev_inuse (chunk_of_bytes h' :: 'a malloc_chunk)) \<and>
              (type_result r = Free \<longleftrightarrow> \<not> prev_inuse (chunk_of_bytes h' :: 'a malloc_chunk))) \<and>
           (\<forall>h. proc (block r) (4 * (LENGTH('a) div 8)) = Some h \<longrightarrow>
              block r + (size_result r - sizeof_unsigned_int)
                = next_chunk (block r) (chunk_of_bytes h))"
  by (rule loop_results_all [OF assms(1)])
     (auto simp: assms(2) emitted_top_def emitted_chunk_def new_Result_def Let_def
        read_chunk_def next_chunk_def)

subsection \<open>Self-referencing chunks\<close>

text \<open>
  C10: when the header at the current address, an address within the bounds, can be
  read and its chunk size is 0, the next address is the current address; the walk
  then emits this chunk, with recorded size 4 and the state read from the
  \<^verbatim>\<open>PREV_INUSE\<close> bit of this same header, and returns the chunks collected so far
  followed by it.
\<close>

theorem self_referencing_chunk_is_emitted:
  fixes proc :: "'a::len IProcess"
  assumes "sa \<le> currentChunkAddress s" and "currentChunkAddress s < ea"
    and "proc (currentChunkAddress s) (4 * (LENGTH('a) div 8)) = Some h"
    and "chunk_size (chunk_of_bytes h :: 'a malloc_chunk) = 0"
  shows "collect_blocks_loop env proc sa ea s =
           Some (results s @
             [new_Result (currentChunkAddress s) sizeof_unsigned_int
                (if prev_inuse (chunk_of_bytes h :: 'a malloc_chunk) then Busy else Free)
                (classify env proc (currentChunkAddress s) (chunk_of_bytes h)
                   (bytes s (length (results s))))])"
proof -
  have ne: "currentChunkAddress s \<noteq> ea" using assms(2) by auto
  have rd: "read_chunk proc (currentChunkAddress s) buf = chunk_of_bytes h" for buf
    using assms(3) by (rule read_chunk_Some)
  have "collect_blocks_body env proc sa ea s =
     Break (s\<lparr>currentChunk := chunk_of_bytes h, nextChunk := chunk_of_bytes h,
       results := results s @
             [new_Result (currentChunkAddress s) sizeof_unsigned_int
                (if prev_inuse (chunk_of_bytes h :: 'a malloc_chunk) then Busy else Free)
                (classify env proc (currentChunkAddress s) (chunk_of_bytes h)
                   (bytes s (length (results s))))]\<rparr>)"
    using assms ne
    by (auto simp: collect_blocks_body_def Let_def advance_def next_chunk_def rd
        split: prod.splits)
  with ne show ?thesis by (simp add: collect_blocks_loop.simps)
qed

theorem self_referencing_chunk_is_emitted_witness:
  "(0x1000 :: 64 word) \<le> currentChunkAddress (start_state 0x1000) \<and>
   currentChunkAddress (start_state (0x1000 :: 64 word)) < 0x2000 \<and>
   proc_self (currentChunkAddress (start_state 0x1000)) (4 * (LENGTH(64) div 8))
     = Some (words64 [0, 0x1, 0, 0]) \<and>
   chunk_size (chunk_of_bytes (words64 [0, 0x1, 0, 0]) :: 64 malloc_chunk) = 0 \<and>
   collect_blocks_loop (plain_env proc_self) proc_self 0x1000 0x2000 (start_state 0x1000)
     = Some [new_Result 0x1000 4 Busy []]"
proof -
  have lo: "(0x1000 :: 64 word) \<le> currentChunkAddress (start_state 0x1000)" by code_simp
  have hi: "currentChunkAddress (start_state (0x1000 :: 64 word)) < 0x2000" by code_simp
  have rd: "proc_self (currentChunkAddress (start_state 0x1000)) (4 * (LENGTH(64) div 8))
              = Some (words64 [0, 0x1, 0, 0])"
    by code_simp
  have sz: "chunk_size (chunk_of_bytes (words64 [0, 0x1, 0, 0]) :: 64 malloc_chunk) = 0"
    by code_simp
  have val: "results (start_state (0x1000 :: 64 word)) @
             [new_Result (currentChunkAddress (start_state (0x1000 :: 64 word))) sizeof_unsigned_int
                (if prev_inuse (chunk_of_bytes (words64 [0, 0x1, 0, 0]) :: 64 malloc_chunk)
                 then Busy else Free)
                (classify (plain_env proc_self) proc_self
                   (currentChunkAddress (start_state 0x1000))
                   (chunk_of_bytes (words64 [0, 0x1, 0, 0]))
                   (bytes (start_state (0x1000 :: 64 word))
                      (length (results (start_state (0x1000 :: 64 word))))))]
             = [new_Result 0x1000 4 Busy []]"
    by code_simp
  from self_referencing_chunk_is_emitted
         [where proc = proc_self and s = "start_state 0x1000" and sa = "0x1000" and ea = "0x2000"
            and env = "plain_env proc_self" and h = "words64 [0, 0x1, 0, 0]", OF lo hi rd sz]
       val
  have "collect_blocks_loop (plain_env proc_self) proc_self 0x1000 0x2000 (start_state 0x1000)
          = Some [new_Result 0x1000 4 Busy []]"
    by simp
  with lo hi rd sz show ?thesis by simp
qed

subsection \<open>The chunk addresses of a walk are pairwise distinct\<close>

text \<open>
  When every header between the two bounds can be read, the header at an address is a
  function of the address, and so is the rest of the walk from there. A walk that came
  back to an address would go round forever; a walk that returns therefore emits no
  address twice.
\<close>

lemma walk_from_deterministic:
  "walk_from proc sa ea a bs \<Longrightarrow> walk_from proc sa ea a bs' \<Longrightarrow> bs = bs'"
proof (induction arbitrary: bs' rule: walk_from.induct)
  case at_end
  from at_end show ?case by (cases rule: walk_from.cases) simp_all
next
  case (top a h)
  from top.prems show ?case using top.hyps by (cases rule: walk_from.cases) simp_all
next
  case (broken a h)
  from broken.prems show ?case using broken.hyps by (cases rule: walk_from.cases) auto
next
  case (self a h)
  from self.prems show ?case using self.hyps by (cases rule: walk_from.cases) simp_all
next
  case (step a h bs)
  from step.prems show ?case using step.hyps(1-5) step.IH
    by (cases rule: walk_from.cases) auto
qed

lemma walk_from_suffix:
  "walk_from proc sa ea b bs \<Longrightarrow> a \<in> set bs \<Longrightarrow>
     \<exists>pre suf. bs = pre @ suf \<and> walk_from proc sa ea a suf"
proof (induction rule: walk_from.induct)
  case at_end
  then show ?case by simp
next
  case (top b h)
  then have "a = b" by simp
  with top.hyps have "walk_from proc sa ea a [a]" by (auto intro: walk_from.top)
  with \<open>a = b\<close> show ?case by (intro exI [of _ "[]"] exI [of _ "[b]"]) simp
next
  case (broken b h)
  then show ?case by simp
next
  case (self b h)
  then have "a = b" by simp
  with self.hyps have "walk_from proc sa ea a [a]" by (auto intro: walk_from.self)
  with \<open>a = b\<close> show ?case by (intro exI [of _ "[]"] exI [of _ "[b]"]) simp
next
  case (step b h bs)
  show ?case
  proof (cases "a = b")
    case True
    from step.hyps have "walk_from proc sa ea b (b # bs)" by (rule walk_from.step)
    with True show ?thesis by (intro exI [of _ "[]"] exI [of _ "b # bs"]) simp
  next
    case False
    with step.prems have "a \<in> set bs" by simp
    from step.IH [OF this] obtain pre suf where "bs = pre @ suf" "walk_from proc sa ea a suf"
      by auto
    then show ?thesis by (intro exI [of _ "b # pre"] exI [of _ suf]) simp
  qed
qed

lemma walk_from_distinct: "walk_from proc sa ea a bs \<Longrightarrow> distinct bs"
proof (induction rule: walk_from.induct)
  case (step a h bs)
  have "a \<notin> set bs"
  proof
    assume "a \<in> set bs"
    from walk_from_suffix [OF step.hyps(6) this] obtain pre suf where
      bs: "bs = pre @ suf" and suf: "walk_from proc sa ea a suf"
      by auto
    from step.hyps have "walk_from proc sa ea a (a # bs)" by (rule walk_from.step)
    from walk_from_deterministic [OF this suf] bs show False by simp
  qed
  with step.IH show ?case by simp
qed simp_all


lemma walk_from_end:
  assumes "walk_from proc sa ea ea bs"
  shows "bs = []"
  using assms by (cases rule: walk_from.cases) simp_all

lemma body_walk:
  fixes s :: "'a::len walk_state"
  assumes rd: "proc (currentChunkAddress s) (4 * (LENGTH('a) div 8)) = Some h"
    and ne: "currentChunkAddress s \<noteq> ea"
  shows "(next_chunk (currentChunkAddress s) (chunk_of_bytes h) = ea \<longrightarrow>
           (\<exists>s'. collect_blocks_body env proc sa ea s = Continue s' \<and>
              currentChunkAddress s' = ea \<and>
              map block (results s') = map block (results s) @ [currentChunkAddress s])) \<and>
         (next_chunk (currentChunkAddress s) (chunk_of_bytes h) \<noteq> ea \<longrightarrow>
            (next_chunk (currentChunkAddress s) (chunk_of_bytes h) > ea \<or>
             next_chunk (currentChunkAddress s) (chunk_of_bytes h) < sa \<longrightarrow>
               (\<exists>s'. collect_blocks_body env proc sa ea s = Break s' \<and>
                  results s' = results s)) \<and>
            (\<not> (next_chunk (currentChunkAddress s) (chunk_of_bytes h) > ea \<or>
                next_chunk (currentChunkAddress s) (chunk_of_bytes h) < sa) \<longrightarrow>
               (next_chunk (currentChunkAddress s) (chunk_of_bytes h) = currentChunkAddress s \<longrightarrow>
                  (\<exists>s'. collect_blocks_body env proc sa ea s = Break s' \<and>
                     map block (results s') = map block (results s) @ [currentChunkAddress s])) \<and>
               (next_chunk (currentChunkAddress s) (chunk_of_bytes h) \<noteq> currentChunkAddress s \<longrightarrow>
                  (\<exists>s'. collect_blocks_body env proc sa ea s = Continue s' \<and>
                     currentChunkAddress s' = next_chunk (currentChunkAddress s) (chunk_of_bytes h) \<and>
                     map block (results s') = map block (results s) @ [currentChunkAddress s]))))"
  using rd ne
  by (auto simp: collect_blocks_body_def Let_def advance_def new_Result_def read_chunk_def
      split: prod.splits)

lemma loop_walk_from:
  fixes s :: "'a::len walk_state"
  assumes run: "collect_blocks_loop env proc sa ea s = Some rs"
    and readable: "\<And>a. sa \<le> a \<Longrightarrow> a < ea \<Longrightarrow> \<exists>h. proc a (4 * (LENGTH('a) div 8)) = Some h"
    and lower: "sa \<le> currentChunkAddress s"
    and upper: "currentChunkAddress s \<le> ea"
  shows "\<exists>bs. walk_from proc sa ea (currentChunkAddress s) bs \<and>
           map block rs = map block (results s) @ bs"
proof -
  let ?P = "\<lambda>env' proc' sa' ea' (s :: 'a walk_state) rs.
     env' = env \<and> proc' = proc \<and> sa' = sa \<and> ea' = ea \<and>
     sa \<le> currentChunkAddress s \<and> currentChunkAddress s \<le> ea \<longrightarrow>
     (\<exists>bs. walk_from proc sa ea (currentChunkAddress s) bs \<and>
        map block rs = map block (results s) @ bs)"
  have "?P env' proc' sa' ea' s' rs'"
    if r: "collect_blocks_loop env' proc' sa' ea' s' = Some rs'" for env' proc' sa' ea' s' rs'
  proof (rule collect_blocks_loop.raw_induct [where P = ?P, OF _ r])
    fix loop env' proc' sa' ea' and s :: "'a walk_state" and rs
    assume IH: "\<And>env' proc' sa' ea' s rs. loop env' proc' sa' ea' s = Some rs \<Longrightarrow>
                  ?P env' proc' sa' ea' s rs"
      and unfolded: "(if currentChunkAddress s \<noteq> ea' then
                        (case collect_blocks_body env' proc' sa' ea' s of
                           Break s' \<Rightarrow> Some (results s')
                         | Continue s' \<Rightarrow> loop env' proc' sa' ea' s')
                      else Some (results s)) = Some rs"
    show "?P env' proc' sa' ea' s rs"
    proof (intro impI, elim conjE)
      assume eqs: "env' = env" "proc' = proc" "sa' = sa" "ea' = ea"
        and lo: "sa \<le> currentChunkAddress s" and hi: "currentChunkAddress s \<le> ea"
      let ?a = "currentChunkAddress s"
      show "\<exists>bs. walk_from proc sa ea ?a bs \<and> map block rs = map block (results s) @ bs"
      proof (cases "?a = ea")
        case True
        with unfolded eqs have "rs = results s" by simp
        with True walk_from.at_end [of proc sa ea] show ?thesis by auto
      next
        case False
        with hi have "?a < ea" by simp
        from readable [OF lo this] obtain h where
          h: "proc ?a (4 * (LENGTH('a) div 8)) = Some h" ..
        let ?n = "next_chunk ?a (chunk_of_bytes h)"
        note body = body_walk [where proc = proc and s = s and h = h and ea = ea and env = env and sa = sa, OF h False]
        consider (top) "?n = ea"
          | (broken) "?n \<noteq> ea" "?n > ea \<or> ?n < sa"
          | (self) "?n \<noteq> ea" "\<not> (?n > ea \<or> ?n < sa)" "?n = ?a"
          | (step) "?n \<noteq> ea" "\<not> (?n > ea \<or> ?n < sa)" "?n \<noteq> ?a"
          by blast
        then show ?thesis
        proof cases
          case top
          with body obtain s' where s': "collect_blocks_body env proc sa ea s = Continue s'"
            "currentChunkAddress s' = ea"
            "map block (results s') = map block (results s) @ [?a]"
            by blast
          with unfolded eqs False have "loop env proc sa ea s' = Some rs" by simp
          from IH [OF this] s'(2) lo hi obtain bs where
            "walk_from proc sa ea ea bs" "map block rs = map block (results s') @ bs"
            using False by auto
          with walk_from_end [of proc sa ea bs] s'(3)
          have "map block rs = map block (results s) @ [?a]" by simp
          moreover from False h top have "walk_from proc sa ea ?a [?a]" by (rule walk_from.top)
          ultimately show ?thesis by blast
        next
          case broken
          with body obtain s' where s': "collect_blocks_body env proc sa ea s = Break s'"
            "results s' = results s"
            by blast
          with unfolded eqs False have "rs = results s" by simp
          moreover from False h broken have "walk_from proc sa ea ?a []"
            by (rule walk_from.broken)
          ultimately show ?thesis by auto
        next
          case self
          with body obtain s' where s': "collect_blocks_body env proc sa ea s = Break s'"
            "map block (results s') = map block (results s) @ [?a]"
            by blast
          with unfolded eqs False have "map block rs = map block (results s) @ [?a]" by auto
          moreover from False h self have "walk_from proc sa ea ?a [?a]"
            by (rule walk_from.self)
          ultimately show ?thesis by blast
        next
          case step
          with body obtain s' where s': "collect_blocks_body env proc sa ea s = Continue s'"
            "currentChunkAddress s' = ?n"
            "map block (results s') = map block (results s) @ [?a]"
            by blast
          with unfolded eqs False have "loop env proc sa ea s' = Some rs" by simp
          moreover from step(2) s'(2) have "sa \<le> currentChunkAddress s'"
            "currentChunkAddress s' \<le> ea"
            by (simp_all add: not_less)
          ultimately obtain bs where
            bs: "walk_from proc sa ea ?n bs" "map block rs = map block (results s') @ bs"
            using IH [of env proc sa ea s' rs] s'(2) by auto
          from False h step bs(1) have "walk_from proc sa ea ?a (?a # bs)"
            by (rule walk_from.step)
          with bs(2) s'(3) show ?thesis by auto
        qed
      qed
    qed
  qed
  with run lower upper show ?thesis by blast
qed

lemma walk_blocks_distinct:
  fixes s :: "'a::len walk_state"
  assumes run: "collect_blocks_loop env proc sa ea s = Some rs"
    and readable: "\<And>a. sa \<le> a \<Longrightarrow> a < ea \<Longrightarrow> \<exists>h. proc a (4 * (LENGTH('a) div 8)) = Some h"
    and lower: "sa \<le> currentChunkAddress s"
    and upper: "currentChunkAddress s \<le> ea"
    and fresh: "results s = []"
  shows "distinct (map block rs)"
proof -
  from loop_walk_from [OF run readable lower upper] fresh obtain bs where
    "walk_from proc sa ea (currentChunkAddress s) bs" "map block rs = bs"
    by auto
  with walk_from_distinct show ?thesis by metis
qed

section \<open>Pointer detection\<close>

subsection \<open>The index of payload words\<close>

lemma collect_targets_loop_rule:
  assumes run: "collect_targets_loop b p e t = Some t'"
    and init: "I p t"
    and step: "\<And>p t. I p t \<Longrightarrow> p < e \<Longrightarrow> I (p + sizeof_address) (t(p \<mapsto> b))"
    and exit: "\<And>p t. I p t \<Longrightarrow> \<not> p < e \<Longrightarrow> Q t"
  shows "Q t'"
proof -
  have "b' = b \<and> e' = e \<and> I p' u \<longrightarrow> Q u'"
    if r: "collect_targets_loop b' p' e' u = Some u'" for b' p' e' u u'
  proof (rule collect_targets_loop.raw_induct
      [where P = "\<lambda>b' p' e' u u'. b' = b \<and> e' = e \<and> I p' u \<longrightarrow> Q u'", OF _ r])
    fix loop b' p' e' u u'
    assume IH: "\<And>b' p' e' u u'. loop b' p' e' u = Some u' \<Longrightarrow> b' = b \<and> e' = e \<and> I p' u \<longrightarrow> Q u'"
      and unfolded: "(if p' < e' then loop b' (p' + sizeof_address) e' (u(p' \<mapsto> b'))
                      else Some u) = Some u'"
    show "b' = b \<and> e' = e \<and> I p' u \<longrightarrow> Q u'"
    proof (intro impI, elim conjE)
      assume eqs: "b' = b" "e' = e" and inv: "I p' u"
      show "Q u'"
      proof (cases "p' < e")
        case True
        with unfolded eqs have "loop b (p' + sizeof_address) e (u(p' \<mapsto> b)) = Some u'" by simp
        from IH [OF this] step [OF inv True] show ?thesis by simp
      next
        case False
        with unfolded eqs have "u' = u" by simp
        with exit [OF inv False] show ?thesis by simp
      qed
    qed
  qed
  with run init show ?thesis by blast
qed

lemma collect_targets_loop_indexed:
  assumes run: "collect_targets_loop (block c) (block_start (block c))
                  (block_start (block c) + size_result c) t = Some t'"
    and t: "indexed rs t" and c: "c \<in> set rs"
  shows "indexed rs t'"
proof (rule collect_targets_loop_rule [OF run,
      where I = "\<lambda>p u. indexed rs u \<and> (\<exists>i. p = block_start (block c) + of_nat i * sizeof_address)"])
  show "indexed rs t \<and> (\<exists>i. block_start (block c) = block_start (block c) + of_nat i * sizeof_address)"
    using t by (auto intro: exI [of _ 0])
next
  fix p u
  assume inv: "indexed rs u \<and> (\<exists>i. p = block_start (block c) + of_nat i * sizeof_address)"
    and lt: "p < block_start (block c) + size_result c"
  then obtain i where i: "p = block_start (block c) + of_nat i * sizeof_address" by auto
  have "p + sizeof_address = block_start (block c) + of_nat (Suc i) * sizeof_address"
    by (simp add: i algebra_simps)
  moreover have "indexed rs (u(p \<mapsto> block c))"
    using inv lt c i unfolding indexed_def by (auto split: if_splits)
  ultimately show "indexed rs (u(p \<mapsto> block c)) \<and>
     (\<exists>i. p + sizeof_address = block_start (block c) + of_nat i * sizeof_address)"
    by blast
qed simp

lemma indexed_mono: "indexed rs t \<Longrightarrow> set rs \<subseteq> set rs' \<Longrightarrow> indexed rs' t"
  unfolding indexed_def by blast

lemma collect_targets_indexed:
  "collect_targets t rs = Some t' \<Longrightarrow> indexed pre t \<Longrightarrow> indexed (pre @ rs) t'"
proof (induction rs arbitrary: t pre)
  case Nil
  then show ?case by simp
next
  case (Cons c rs)
  from Cons.prems(1) obtain u where
    u: "collect_targets_loop (block c) (block_start (block c))
          (block_start (block c) + size_result c) t = Some u"
    and rest: "collect_targets u rs = Some t'"
    by (auto split: option.splits)
  have "indexed (pre @ [c]) t" using Cons.prems(2) by (rule indexed_mono) auto
  with u have "indexed (pre @ [c]) u" by (rule collect_targets_loop_indexed) simp
  from Cons.IH [OF rest this] show ?case by simp
qed

lemma potential_pointer_loop_rule:
  assumes run: "potential_pointer_loop env proc t p e r = Some r'"
    and init: "I r"
    and step: "\<And>p r. I r \<Longrightarrow> p < e \<Longrightarrow> I (potential_pointer_step env proc t p r)"
  shows "I r'"
proof -
  have "env' = env \<and> proc' = proc \<and> t' = t \<and> e' = e \<and> I x \<longrightarrow> I x'"
    if r: "potential_pointer_loop env' proc' t' p' e' x = Some x'" for env' proc' t' p' e' x x'
  proof (rule potential_pointer_loop.raw_induct
      [where P = "\<lambda>env' proc' t' p' e' x x'.
          env' = env \<and> proc' = proc \<and> t' = t \<and> e' = e \<and> I x \<longrightarrow> I x'", OF _ r])
    fix loop env' proc' t' p' e' x x'
    assume IH: "\<And>env' proc' t' p' e' x x'. loop env' proc' t' p' e' x = Some x' \<Longrightarrow>
                  env' = env \<and> proc' = proc \<and> t' = t \<and> e' = e \<and> I x \<longrightarrow> I x'"
      and unfolded: "(if p' < e' then
                        loop env' proc' t' (p' + sizeof_address) e'
                          (potential_pointer_step env' proc' t' p' x)
                      else Some x) = Some x'"
    show "env' = env \<and> proc' = proc \<and> t' = t \<and> e' = e \<and> I x \<longrightarrow> I x'"
    proof (intro impI, elim conjE)
      assume eqs: "env' = env" "proc' = proc" "t' = t" "e' = e" and inv: "I x"
      show "I x'"
      proof (cases "p' < e")
        case True
        with unfolded eqs
        have "loop env proc t (p' + sizeof_address) e (potential_pointer_step env proc t p' x) = Some x'"
          by simp
        from IH [OF this] step [OF inv True] show ?thesis by simp
      next
        case False
        with unfolded eqs inv show ?thesis by simp
      qed
    qed
  qed
  with run init show ?thesis by blast
qed

lemma potential_pointer_step_fields:
  "block (potential_pointer_step env proc t p r) = block r \<and>
   size_result (potential_pointer_step env proc t p r) = size_result r \<and>
   type_result (potential_pointer_step env proc t p r) = type_result r \<and>
   set (points_to (potential_pointer_step env proc t p r)) \<subseteq> set (points_to r) \<union> ran t"
  by (auto simp: potential_pointer_step_def ran_def split: option.splits)

lemma process_potential_pointer_fields:
  fixes r :: "'a::len Result"
  assumes "process_potential_pointer env t r = Some r'"
  shows "block r' = block r \<and> size_result r' = size_result r \<and> type_result r' = type_result r \<and>
         set (points_to r') \<subseteq> set (points_to r) \<union> ran t \<and>
         (data r \<noteq> [] \<longrightarrow> r' = r)"
proof (cases "process env")
  case None
  with assms show ?thesis by (simp add: process_potential_pointer_def)
next
  case (Some proc)
  show ?thesis
  proof (cases "data r = []")
    case False
    with assms Some show ?thesis by (simp add: process_potential_pointer_def)
  next
    case True
    with assms Some obtain x where
      x: "potential_pointer_loop env proc t (block_start (block r))
            (block_start (block r) + size_result r) r = Some x"
      and r': "r' = x\<lparr>data := truncate2 (data x)\<rparr>"
      by (auto simp: process_potential_pointer_def split: option.splits)
    have "block x = block r \<and> size_result x = size_result r \<and> type_result x = type_result r \<and>
         set (points_to x) \<subseteq> set (points_to r) \<union> ran t"
    proof (rule potential_pointer_loop_rule [OF x])
      show "block r = block r \<and> size_result r = size_result r \<and> type_result r = type_result r \<and>
         set (points_to r) \<subseteq> set (points_to r) \<union> ran t"
        by simp
    next
      fix p and y :: "'a Result"
      assume "block y = block r \<and> size_result y = size_result r \<and> type_result y = type_result r \<and>
         set (points_to y) \<subseteq> set (points_to r) \<union> ran t"
      with potential_pointer_step_fields [of env proc t p y]
      show "block (potential_pointer_step env proc t p y) = block r \<and>
         size_result (potential_pointer_step env proc t p y) = size_result r \<and>
         type_result (potential_pointer_step env proc t p y) = type_result r \<and>
         set (points_to (potential_pointer_step env proc t p y)) \<subseteq> set (points_to r) \<union> ran t"
        by auto
    qed
    with r' True show ?thesis by simp
  qed
qed

lemma blockingMap_Some:
  "blockingMap f xs = Some ys \<Longrightarrow>
     length ys = length xs \<and> (\<forall>i<length xs. f (xs ! i) = Some (ys ! i))"
proof (induction xs arbitrary: ys)
  case Nil
  then show ?case by simp
next
  case (Cons x xs)
  then obtain y ys' where "f x = Some y" "blockingMap f xs = Some ys'" "ys = y # ys'"
    by (auto split: option.splits)
  with Cons.IH [of ys'] show ?case by (auto simp: nth_Cons split: nat.splits)
qed

lemma indexed_ran:
  "indexed rs t \<Longrightarrow> b \<in> ran t \<Longrightarrow>
     \<exists>c\<in>set rs. b = block c \<and>
       (\<exists>k i. t k = Some b \<and> k = block_start (block c) + of_nat i * sizeof_address \<and>
          k < block_start (block c) + size_result c)"
  unfolding indexed_def ran_def by blast

lemma detect_pointers_edges:
  fixes rs :: "'a::len Result list"
  assumes det: "detect_pointers env rs = Some rs'"
    and fresh: "\<forall>r\<in>set rs. points_to r = []"
  shows "\<forall>r'\<in>set rs'. \<forall>b\<in>set (points_to r').
           \<exists>c\<in>set rs. b = block c \<and>
             (\<exists>targets k i. collect_targets Map.empty rs = Some targets \<and> targets k = Some b \<and>
                k = block_start (block c) + of_nat i * sizeof_address \<and>
                k < block_start (block c) + size_result c)"
proof (intro ballI)
  fix r' b
  assume r': "r' \<in> set rs'" and b: "b \<in> set (points_to r')"
  from det obtain t where t: "collect_targets Map.empty rs = Some t"
    and bm: "blockingMap (process_potential_pointer env t) rs = Some rs'"
    by (auto simp: detect_pointers_def split: option.splits)
  have "indexed [] (Map.empty :: 'a targets)" by (simp add: indexed_def)
  from collect_targets_indexed [OF t this] have ix: "indexed rs t" by simp
  from r' obtain i where i: "i < length rs'" "r' = rs' ! i" by (auto simp: in_set_conv_nth)
  with blockingMap_Some [OF bm]
  have "process_potential_pointer env t (rs ! i) = Some r'" and il: "i < length rs" by auto
  from process_potential_pointer_fields [OF this(1)] fresh il b
  have "b \<in> ran t" by auto
  from indexed_ran [OF ix this] t show
    "\<exists>c\<in>set rs. b = block c \<and>
             (\<exists>targets k i. collect_targets Map.empty rs = Some targets \<and> targets k = Some b \<and>
                k = block_start (block c) + of_nat i * sizeof_address \<and>
                k < block_start (block c) + size_result c)"
    by blast
qed

subsection \<open>Content tags\<close>



lemma walk_results_fresh:
  assumes "collect_blocks_loop env proc sa ea s = Some rs" and "results s = []"
  shows "\<forall>r\<in>set rs. points_to r = [] \<and> (type_result r = Top \<longrightarrow> data r = [])"
  by (rule loop_results_all [OF assms(1)])
     (auto simp: assms(2) emitted_top_def emitted_chunk_def new_Result_def Let_def)


lemma graph64_run:
  "collect_blocks (plain_env proc64) 0x1000 0x1080 zero_chunk zero_chunk zero_bytes = Some graph64"
  by code_simp





subsection \<open>Edges\<close>

lemma collect_targets_cong:
  "map block rs = map block rs' \<Longrightarrow> map size_result rs = map size_result rs' \<Longrightarrow>
     collect_targets t rs = collect_targets t rs'"
proof (induction rs arbitrary: rs' t)
  case Nil
  then show ?case by simp
next
  case (Cons r rs)
  then obtain r' rest where rs': "rs' = r' # rest" by (cases rs') auto
  with Cons.prems have "block r = block r'" "size_result r = size_result r'"
    "map block rs = map block rest" "map size_result rs = map size_result rest"
    by auto
  with Cons.IH [of rest] rs' show ?case by (simp split: option.splits)
qed

lemma detect_pointers_fields:
  assumes "detect_pointers env rs = Some rs'"
  shows "map block rs' = map block rs \<and> map size_result rs' = map size_result rs \<and>
         map type_result rs' = map type_result rs"
proof -
  from assms obtain t where bm: "blockingMap (process_potential_pointer env t) rs = Some rs'"
    by (auto simp: detect_pointers_def split: option.splits)
  note bmS = blockingMap_Some [OF bm]
  have "block (rs' ! i) = block (rs ! i) \<and> size_result (rs' ! i) = size_result (rs ! i) \<and>
        type_result (rs' ! i) = type_result (rs ! i)" if "i < length rs" for i
    using bmS that process_potential_pointer_fields [of env t "rs ! i" "rs' ! i"] by simp
  with bmS show ?thesis by (auto intro: nth_equalityI)
qed

lemma collect_blocks_Some:
  assumes "collect_blocks env sa ea cc0 nc0 b0 = Some rs'"
  shows "rs' = [] \<or>
         (\<exists>proc rs s. process env = Some proc \<and> results s = [] \<and>
            collect_blocks_loop env proc sa ea s = Some rs \<and> detect_pointers env rs = Some rs')"
proof (cases "process env")
  case None
  with assms show ?thesis by (simp add: collect_blocks_def)
next
  case (Some proc)
  show ?thesis
  proof (cases "sa \<noteq> 0 \<and> ea \<noteq> 0")
    case False
    with assms Some show ?thesis by (auto simp: collect_blocks_def)
  next
    case True
    with assms Some obtain rs where
      "collect_blocks_loop env proc sa ea
         \<lparr>currentChunkAddress = sa, currentChunk = cc0, nextChunk = nc0, bytes = b0, results = []\<rparr>
       = Some rs" "detect_pointers env rs = Some rs'"
      by (auto simp: collect_blocks_def split: option.splits)
    with Some show ?thesis
      by (intro disjI2 exI [of _ proc] exI [of _ rs]
            exI [of _ "\<lparr>currentChunkAddress = sa, currentChunk = cc0, nextChunk = nc0, bytes = b0, results = []\<rparr>"])
         simp
  qed
qed

text \<open>
  C2, as the specification states it, fails: a recorded edge holds the address of
  the target chunk, not the address of its payload. In the heap \<open>proc64\<close> the first
  chunk holds a pointer to \<open>0x1030\<close>, the payload of the chunk at \<open>0x1020\<close>; the
  edge recorded is \<open>0x1020\<close>, which is the payload start of no chunk.
\<close>

theorem edges_target_counterexample:
  "collect_blocks (plain_env proc64) 0x1000 0x1080 zero_chunk zero_chunk zero_bytes = Some graph64 \<and>
   points_to (graph64 ! 0) = [0x1020] \<and>
   map (block_start \<circ> block) graph64 = [0x1010, 0x1030, 0x1050, 0x1070] \<and>
   (0x1020 :: 64 word) \<notin> set [0x1010, 0x1030, 0x1050, 0x1070]"
proof -
  have "points_to (graph64 ! 0) = [0x1020]" by code_simp
  moreover have "map (block_start \<circ> block) graph64 = [0x1010, 0x1030, 0x1050, 0x1070]"
    by code_simp
  moreover have "(0x1020 :: 64 word) \<notin> set [0x1010, 0x1030, 0x1050, 0x1070]" by simp
  ultimately show ?thesis using graph64_run by simp
qed

text \<open>
  C2, amended: every edge recorded by pointer detection holds the address of a
  chunk of the chunk list (the address of its header, which is the key of the chunk
  in the graph), and the index maps to this address a payload-word address of that
  chunk: the chunk address plus two pointer sizes plus a multiple of the pointer
  size, below the end of the scanned payload.
\<close>

theorem edges_target_chunk_addresses:
  fixes env :: "'a::len edb"
  assumes "collect_blocks env sa ea cc0 nc0 b0 = Some rs'"
  shows "\<forall>r'\<in>set rs'. \<forall>b\<in>set (points_to r').
           \<exists>c\<in>set rs'. b = block c \<and>
             (\<exists>targets k i. collect_targets Map.empty rs' = Some targets \<and> targets k = Some b \<and>
                k = block_start (block c) + of_nat i * sizeof_address \<and>
                k < block_start (block c) + size_result c)"
proof (intro ballI)
  fix r' b
  assume r': "r' \<in> set rs'" and b: "b \<in> set (points_to r')"
  then have "rs' \<noteq> []" by auto
  with collect_blocks_Some [OF assms] obtain proc rs s where
    walk: "collect_blocks_loop env proc sa ea s = Some rs" "results s = []"
    and det: "detect_pointers env rs = Some rs'"
    by auto
  from walk_results_fresh [OF walk] have fresh: "\<forall>r\<in>set rs. points_to r = []" by simp
  from detect_pointers_edges [OF det fresh] r' b obtain c targets k i where
    c: "c \<in> set rs" "b = block c" and t: "collect_targets Map.empty rs = Some targets"
    and k: "targets k = Some b" "k = block_start (block c) + of_nat i * sizeof_address"
      "k < block_start (block c) + size_result c"
    by blast
  note f = detect_pointers_fields [OF det]
  from f have len: "length rs' = length rs" by (metis length_map)
  from c obtain j where j: "j < length rs" "c = rs ! j" by (auto simp: in_set_conv_nth)
  from f j len have "block (rs' ! j) = block c" "size_result (rs' ! j) = size_result c"
    by (metis nth_map)+
  moreover have "rs' ! j \<in> set rs'" using j len by simp
  moreover from f t have "collect_targets Map.empty rs' = Some targets"
    using collect_targets_cong [of rs' rs Map.empty] by simp
  ultimately show "\<exists>c\<in>set rs'. b = block c \<and>
             (\<exists>targets k i. collect_targets Map.empty rs' = Some targets \<and> targets k = Some b \<and>
                k = block_start (block c) + of_nat i * sizeof_address \<and>
                k < block_start (block c) + size_result c)"
    using c k by (intro bexI [of _ "rs' ! j"]) auto
qed

theorem edges_target_chunk_addresses_witness:
  "collect_blocks (plain_env proc64) 0x1000 0x1080 zero_chunk zero_chunk zero_bytes = Some graph64 \<and>
   graph64 ! 0 \<in> set graph64 \<and>
   (0x1020 :: 64 word) \<in> set (points_to (graph64 ! 0)) \<and>
   (\<exists>c\<in>set graph64. 0x1020 = block c \<and>
      (\<exists>targets k i. collect_targets Map.empty graph64 = Some targets \<and>
         targets k = Some 0x1020 \<and>
         k = block_start (block c) + of_nat i * sizeof_address \<and>
         k < block_start (block c) + size_result c))"
proof -
  have m: "graph64 ! 0 \<in> set graph64" by (simp add: graph64_def)
  have b: "(0x1020 :: 64 word) \<in> set (points_to (graph64 ! 0))" by (simp add: graph64_def)
  from edges_target_chunk_addresses [OF graph64_run] m b
  have "\<exists>c\<in>set graph64. 0x1020 = block c \<and>
      (\<exists>targets k i. collect_targets Map.empty graph64 = Some targets \<and>
         targets k = Some 0x1020 \<and>
         k = block_start (block c) + of_nat i * sizeof_address \<and>
         k < block_start (block c) + size_result c)"
    by blast
  with graph64_run m b show ?thesis by simp
qed

section \<open>The chunks that \<^verbatim>\<open>collect_blocks\<close> returns\<close>

text \<open>From the walk to the whole function: pointer detection keeps address, size and state.\<close>

lemma collect_blocks_all:
  fixes env :: "'a::len edb"
  assumes cb: "collect_blocks env sa ea cc0 nc0 b0 = Some rs'"
    and proc: "process env = Some proc"
    and walk: "\<And>rs s. collect_blocks_loop env proc sa ea s = Some rs \<Longrightarrow> results s = [] \<Longrightarrow>
                 \<forall>r\<in>set rs. Q (block r) (size_result r) (type_result r)"
  shows "\<forall>r\<in>set rs'. Q (block r) (size_result r) (type_result r)"
proof (cases "rs' = []")
  case True
  then show ?thesis by simp
next
  case False
  with collect_blocks_Some [OF cb] proc obtain rs s where
    w: "collect_blocks_loop env proc sa ea s = Some rs" "results s = []"
    and det: "detect_pointers env rs = Some rs'"
    by auto
  note f = detect_pointers_fields [OF det]
  from f have len: "length rs' = length rs" by (metis length_map)
  show ?thesis
  proof
    fix r
    assume "r \<in> set rs'"
    then obtain j where j: "j < length rs'" "r = rs' ! j" by (auto simp: in_set_conv_nth)
    with f len have "block r = block (rs ! j)" "size_result r = size_result (rs ! j)"
      "type_result r = type_result (rs ! j)"
      by (metis nth_map)+
    moreover from j len have "rs ! j \<in> set rs" by simp
    ultimately show "Q (block r) (size_result r) (type_result r)"
      using walk [OF w] by simp
  qed
qed

lemma proc64_process: "process (plain_env proc64) = Some proc64"
  by (simp add: plain_env_def)

subsection \<open>The recorded size\<close>

text \<open>
  C4, as the specification states it, fails at 64 bits, where a word (an address, a
  header field, a payload word) has 8 bytes: the first chunk of the heap \<open>proc64\<close>
  is busy, its chunk size is \<open>0x20\<close>, and its recorded size is \<open>0x24\<close>, not
  \<open>0x28\<close>.
\<close>

theorem recorded_size_counterexample:
  "collect_blocks (plain_env proc64) 0x1000 0x1080 zero_chunk zero_chunk zero_bytes
     = Some graph64 \<and>
   type_result (graph64 ! 0) = Busy \<and>
   proc64 (block (graph64 ! 0)) (4 * (LENGTH(64) div 8)) = Some (words64 [0, 0x21, 0x1030, 0]) \<and>
   chunk_size (chunk_of_bytes (words64 [0, 0x21, 0x1030, 0]) :: 64 malloc_chunk) = 0x20 \<and>
   (sizeof_address :: 64 word) = 8 \<and>
   size_result (graph64 ! 0) = 0x24 \<and>
   size_result (graph64 ! 0) \<noteq>
     chunk_size (chunk_of_bytes (words64 [0, 0x21, 0x1030, 0]) :: 64 malloc_chunk)
       + sizeof_address"
proof -
  have "type_result (graph64 ! 0) = Busy" by code_simp
  moreover have "proc64 (block (graph64 ! 0)) (4 * (LENGTH(64) div 8))
                   = Some (words64 [0, 0x21, 0x1030, 0])"
    by code_simp
  moreover have "chunk_size (chunk_of_bytes (words64 [0, 0x21, 0x1030, 0]) :: 64 malloc_chunk)
                   = 0x20"
    by code_simp
  moreover have "(sizeof_address :: 64 word) = 8" by code_simp
  moreover have "size_result (graph64 ! 0) = 0x24" by code_simp
  moreover have "size_result (graph64 ! 0) \<noteq>
     chunk_size (chunk_of_bytes (words64 [0, 0x21, 0x1030, 0]) :: 64 malloc_chunk)
       + sizeof_address"
    by code_simp
  ultimately show ?thesis using graph64_run by blast
qed

text \<open>
  C4, amended: for every chunk that \<^verbatim>\<open>collect_blocks\<close> returns and whose header can
  be read, the recorded size is the chunk size plus \<^verbatim>\<open>sizeof(unsigned int)\<close>, that
  is plus 4 bytes at both address widths (a word only at 32 bits), when the state is
  Busy or Free, and the chunk size itself when the state is Top.
\<close>

theorem recorded_size:
  fixes env :: "'a::len edb"
  assumes "collect_blocks env sa ea cc0 nc0 b0 = Some rs" and "process env = Some proc"
  shows "(\<forall>r\<in>set rs. \<forall>h. proc (block r) (4 * (LENGTH('a) div 8)) = Some h \<longrightarrow>
           size_result r =
             (if type_result r = Top then chunk_size (chunk_of_bytes h :: 'a malloc_chunk)
              else chunk_size (chunk_of_bytes h :: 'a malloc_chunk) + sizeof_unsigned_int)) \<and>
         (sizeof_unsigned_int :: 'a word) = 4"
proof
  show "\<forall>r\<in>set rs. \<forall>h. proc (block r) (4 * (LENGTH('a) div 8)) = Some h \<longrightarrow>
           size_result r =
             (if type_result r = Top then chunk_size (chunk_of_bytes h :: 'a malloc_chunk)
              else chunk_size (chunk_of_bytes h :: 'a malloc_chunk) + sizeof_unsigned_int)"
    by (rule collect_blocks_all [OF assms]) (use loop_recorded_size in blast)
  show "(sizeof_unsigned_int :: 'a word) = 4" by (simp add: sizeof_unsigned_int_def)
qed


theorem recorded_size_witness:
  "collect_blocks (plain_env proc64) 0x1000 0x1080 zero_chunk zero_chunk zero_bytes
     = Some graph64 \<and>
   process (plain_env proc64) = Some proc64 \<and>
   proc64 (block (graph64 ! 0)) (4 * (LENGTH(64) div 8)) = Some (words64 [0, 0x21, 0x1030, 0]) \<and>
   type_result (graph64 ! 0) = Busy \<and>
   size_result (graph64 ! 0) =
     chunk_size (chunk_of_bytes (words64 [0, 0x21, 0x1030, 0]) :: 64 malloc_chunk) + 4 \<and>
   proc64 (block (graph64 ! 3)) (4 * (LENGTH(64) div 8)) = Some (words64 [0, 0x21, 0, 0]) \<and>
   type_result (graph64 ! 3) = Top \<and>
   size_result (graph64 ! 3) =
     chunk_size (chunk_of_bytes (words64 [0, 0x21, 0, 0]) :: 64 malloc_chunk)"
proof -
  note all = recorded_size [OF graph64_run proc64_process]
  have m0: "graph64 ! 0 \<in> set graph64" and m3: "graph64 ! 3 \<in> set graph64"
    by (simp_all add: graph64_def)
  have h0: "proc64 (block (graph64 ! 0)) (4 * (LENGTH(64) div 8))
              = Some (words64 [0, 0x21, 0x1030, 0])"
    by code_simp
  have h3: "proc64 (block (graph64 ! 3)) (4 * (LENGTH(64) div 8)) = Some (words64 [0, 0x21, 0, 0])"
    by code_simp
  have t0: "type_result (graph64 ! 0) = Busy" and t3: "type_result (graph64 ! 3) = Top"
    by (simp_all add: graph64_def new_Result_def)
  from all m0 h0 t0 have s0: "size_result (graph64 ! 0) =
     chunk_size (chunk_of_bytes (words64 [0, 0x21, 0x1030, 0]) :: 64 malloc_chunk) + 4"
    by auto
  from all m3 h3 t3 have s3: "size_result (graph64 ! 3) =
     chunk_size (chunk_of_bytes (words64 [0, 0x21, 0, 0]) :: 64 malloc_chunk)"
    by auto
  from graph64_run proc64_process h0 t0 s0 h3 t3 s3 show ?thesis by blast
qed

subsection \<open>Busy and free chunks\<close>

text \<open>
  The walks on the heaps \<open>proc_cut_set\<close> and \<open>proc_cut_clear\<close>, whatever the two header
  buffers and the array hold at first: every buffer is written by a read that
  succeeds before it is used.
\<close>

lemma cut_set_run:
  "collect_blocks (plain_env proc_cut_set) 0x1000 0x1080 cc0 nc0 b0 = Some walk_cut_set"
  by code_simp

lemma cut_clear_run:
  "collect_blocks (plain_env proc_cut_clear) 0x1000 0x1080 cc0 nc0 b0 = Some walk_cut_clear"
  by code_simp

text \<open>
  C8, as the specification states it, fails. In the heaps \<open>proc_cut_set\<close> and
  \<open>proc_cut_clear\<close> the chunk after the chunk at \<open>0x1040\<close> is at \<open>0x1060\<close>, where nothing
  can be read, neither the header nor its size field. The result of the read of the
  header is ignored, and the chunk at \<open>0x1040\<close> is emitted with the state that the
  buffer of the next header gives: the buffer holds the chunk's own header since the
  run of the body for the chunk before. The chunk is Busy in the first heap and Free
  in the second one, as the \<^verbatim>\<open>PREV_INUSE\<close> bit of its own size field says, with the
  same unreadable memory after it.
\<close>

theorem busy_state_counterexample:
  "collect_blocks (plain_env proc_cut_set) 0x1000 0x1080 zero_chunk zero_chunk zero_bytes
     = Some walk_cut_set \<and>
   collect_blocks (plain_env proc_cut_clear) 0x1000 0x1080 zero_chunk zero_chunk zero_bytes
     = Some walk_cut_clear \<and>
   block (walk_cut_set ! 1) = 0x1040 \<and>
   block (walk_cut_clear ! 1) = 0x1040 \<and>
   proc_cut_set 0x1040 (4 * (LENGTH(64) div 8)) = Some (words64 [0, 0x21, 0, 0]) \<and>
   proc_cut_clear 0x1040 (4 * (LENGTH(64) div 8)) = Some (words64 [0, 0x20, 0, 0]) \<and>
   following_chunk (walk_cut_set ! 1) = 0x1060 \<and>
   following_chunk (walk_cut_clear ! 1) = 0x1060 \<and>
   proc_cut_set 0x1060 (4 * (LENGTH(64) div 8)) = None \<and>
   proc_cut_clear 0x1060 (4 * (LENGTH(64) div 8)) = None \<and>
   read_address proc_cut_set (0x1060 + sizeof_address) = None \<and>
   read_address proc_cut_clear (0x1060 + sizeof_address) = None \<and>
   type_result (walk_cut_set ! 1) = Busy \<and>
   type_result (walk_cut_clear ! 1) = Free"
proof -
  have "block (walk_cut_set ! 1) = 0x1040" "block (walk_cut_clear ! 1) = 0x1040"
    by code_simp+
  moreover have
    "proc_cut_set 0x1040 (4 * (LENGTH(64) div 8)) = Some (words64 [0, 0x21, 0, 0])"
    "proc_cut_clear 0x1040 (4 * (LENGTH(64) div 8)) = Some (words64 [0, 0x20, 0, 0])"
    by code_simp+
  moreover have "following_chunk (walk_cut_set ! 1) = 0x1060"
    "following_chunk (walk_cut_clear ! 1) = 0x1060"
    by code_simp+
  moreover have "proc_cut_set 0x1060 (4 * (LENGTH(64) div 8)) = None"
    "proc_cut_clear 0x1060 (4 * (LENGTH(64) div 8)) = None"
    by code_simp+
  moreover have "read_address proc_cut_set (0x1060 + sizeof_address) = None"
    "read_address proc_cut_clear (0x1060 + sizeof_address) = None"
    by code_simp+
  moreover have "type_result (walk_cut_set ! 1) = Busy" "type_result (walk_cut_clear ! 1) = Free"
    by code_simp+
  ultimately show ?thesis using cut_set_run cut_clear_run by blast
qed

text \<open>
  C8, amended: for every chunk that \<^verbatim>\<open>collect_blocks\<close> returns with a state other
  than Top, when the read of the header of the following chunk succeeds, the chunk
  is Busy or Free as the \<^verbatim>\<open>PREV_INUSE\<close> bit of the size field of that header says:
  Busy when the bit is set, Free when it is clear. The following chunk is the one at
  the address that the walk goes to next, the chunk's address plus its recorded size
  less 4; when the chunk's own header can be read, that is the chunk's address plus
  the chunk size of its header.
\<close>

theorem busy_iff_prev_inuse_of_following_chunk:
  fixes env :: "'a::len edb"
  assumes "collect_blocks env sa ea cc0 nc0 b0 = Some rs" and "process env = Some proc"
  shows "\<forall>r\<in>set rs. type_result r \<noteq> Top \<longrightarrow>
           (\<forall>h'. proc (following_chunk r) (4 * (LENGTH('a) div 8)) = Some h' \<longrightarrow>
              (type_result r = Busy \<longleftrightarrow> prev_inuse (chunk_of_bytes h' :: 'a malloc_chunk)) \<and>
              (type_result r = Free \<longleftrightarrow> \<not> prev_inuse (chunk_of_bytes h' :: 'a malloc_chunk))) \<and>
           (\<forall>h. proc (block r) (4 * (LENGTH('a) div 8)) = Some h \<longrightarrow>
              following_chunk r = next_chunk (block r) (chunk_of_bytes h))"
  unfolding following_chunk_def
  by (rule collect_blocks_all [OF assms]) (use loop_busy_iff in blast)

theorem busy_iff_prev_inuse_of_following_chunk_witness:
  "collect_blocks (plain_env proc64) 0x1000 0x1080 zero_chunk zero_chunk zero_bytes
     = Some graph64 \<and>
   process (plain_env proc64) = Some proc64 \<and>
   proc64 (block (graph64 ! 0)) (4 * (LENGTH(64) div 8)) = Some (words64 [0, 0x21, 0x1030, 0]) \<and>
   following_chunk (graph64 ! 0)
     = next_chunk (block (graph64 ! 0)) (chunk_of_bytes (words64 [0, 0x21, 0x1030, 0])) \<and>
   proc64 (following_chunk (graph64 ! 0)) (4 * (LENGTH(64) div 8))
     = Some (words64 [0, 0x21, 0x474e5089, 0x1010]) \<and>
   prev_inuse (chunk_of_bytes (words64 [0, 0x21, 0x474e5089, 0x1010]) :: 64 malloc_chunk) \<and>
   type_result (graph64 ! 0) = Busy \<and>
   proc64 (following_chunk (graph64 ! 1)) (4 * (LENGTH(64) div 8))
     = Some (words64 [0, 0x20, 0, 0x1010]) \<and>
   \<not> prev_inuse (chunk_of_bytes (words64 [0, 0x20, 0, 0x1010]) :: 64 malloc_chunk) \<and>
   type_result (graph64 ! 1) = Free"
proof -
  note all = busy_iff_prev_inuse_of_following_chunk [OF graph64_run proc64_process]
  have m0: "graph64 ! 0 \<in> set graph64" and m1: "graph64 ! 1 \<in> set graph64"
    by (simp_all add: graph64_def)
  have n0: "type_result (graph64 ! 0) \<noteq> Top" and n1: "type_result (graph64 ! 1) \<noteq> Top"
    by (simp_all add: graph64_def new_Result_def)
  have h0: "proc64 (block (graph64 ! 0)) (4 * (LENGTH(64) div 8))
              = Some (words64 [0, 0x21, 0x1030, 0])"
    by code_simp
  have f0: "proc64 (following_chunk (graph64 ! 0)) (4 * (LENGTH(64) div 8))
              = Some (words64 [0, 0x21, 0x474e5089, 0x1010])"
    by code_simp
  have p0: "prev_inuse (chunk_of_bytes (words64 [0, 0x21, 0x474e5089, 0x1010]) :: 64 malloc_chunk)"
    by code_simp
  have f1: "proc64 (following_chunk (graph64 ! 1)) (4 * (LENGTH(64) div 8))
              = Some (words64 [0, 0x20, 0, 0x1010])"
    by code_simp
  have p1: "\<not> prev_inuse (chunk_of_bytes (words64 [0, 0x20, 0, 0x1010]) :: 64 malloc_chunk)"
    by code_simp
  from all m0 n0 h0 have a0: "following_chunk (graph64 ! 0)
     = next_chunk (block (graph64 ! 0)) (chunk_of_bytes (words64 [0, 0x21, 0x1030, 0]))"
    by blast
  from all m0 n0 f0 p0 have t0: "type_result (graph64 ! 0) = Busy" by blast
  from all m1 n1 f1 p1 have t1: "type_result (graph64 ! 1) = Free" by blast
  from graph64_run proc64_process h0 a0 f0 p0 t0 f1 p1 t1 show ?thesis by blast
qed

subsection \<open>Distinct chunk addresses\<close>

lemma collect_blocks_distinct:
  fixes env :: "'a::len edb"
  assumes cb: "collect_blocks env sa ea cc0 nc0 b0 = Some rs'"
    and proc: "process env = Some proc"
    and readable: "\<And>a. sa \<le> a \<Longrightarrow> a < ea \<Longrightarrow> \<exists>h. proc a (4 * (LENGTH('a) div 8)) = Some h"
    and le: "sa \<le> ea"
  shows "distinct (map block rs')"
proof (cases "sa \<noteq> 0 \<and> ea \<noteq> 0")
  case False
  with cb proc have "rs' = []" by (auto simp: collect_blocks_def)
  then show ?thesis by simp
next
  case True
  let ?s = "\<lparr>currentChunkAddress = sa, currentChunk = cc0, nextChunk = nc0, bytes = b0,
             results = []\<rparr>"
  from cb proc True obtain rs where
    w: "collect_blocks_loop env proc sa ea ?s = Some rs"
    and det: "detect_pointers env rs = Some rs'"
    by (auto simp: collect_blocks_def split: option.splits)
  have "distinct (map block rs)"
    by (rule walk_blocks_distinct [OF w readable]) (use le in simp_all)
  with detect_pointers_fields [OF det] show ?thesis by simp
qed

section \<open>Heap bounds\<close>

lemma offset_eq_iff:
  assumes width: "LENGTH('a::len) = 32 \<or> LENGTH('a) = 64"
    and k: "k \<le> 0x1000 div (LENGTH('a) div 8)"
  shows "(of_nat k * sizeof_address = (0x1000 :: 'a word)) \<longleftrightarrow> k = 0x1000 div (LENGTH('a) div 8)"
proof -
  have big: "(0x1000 :: nat) < 2 ^ LENGTH('a)"
  proof -
    have "(0x1000 :: nat) < 2 ^ 32" by simp
    also have "\<dots> \<le> 2 ^ LENGTH('a)" using width by (intro power_increasing) auto
    finally show ?thesis .
  qed
  have kp: "k * (LENGTH('a) div 8) \<le> 0x1000" using width k by auto
  have e1: "take_bit LENGTH('a) (k * (LENGTH('a) div 8)) = k * (LENGTH('a) div 8)"
    using big kp by (simp add: take_bit_nat_eq_self)
  have e2: "take_bit LENGTH('a) (0x1000 :: nat) = 0x1000"
    using big by (simp add: take_bit_nat_eq_self)
  have "(of_nat (k * (LENGTH('a) div 8)) = (of_nat 0x1000 :: 'a word)) \<longleftrightarrow>
     k * (LENGTH('a) div 8) = 0x1000"
    by (simp only: word_of_nat_eq_iff e1 e2)
  moreover have "of_nat k * (sizeof_address :: 'a word) = of_nat (k * (LENGTH('a) div 8))"
    by (simp add: sizeof_address_def)
  moreover have "(0x1000 :: 'a word) = of_nat 0x1000" by simp
  ultimately have "(of_nat k * sizeof_address = (0x1000 :: 'a word)) \<longleftrightarrow>
     k * (LENGTH('a) div 8) = 0x1000"
    by (simp only:)
  with width k show ?thesis by auto
qed

lemma heuristic_loop_from:
  fixes env :: "'a::len edb"
  assumes width: "LENGTH('a) = 32 \<or> LENGTH('a) = 64"
    and k: "k \<le> 0x1000 div (LENGTH('a) div 8)"
  shows "heuristic_loop env e (of_nat k * sizeof_address) s t =
           Some (first_accepted env e s t
                   (map (\<lambda>k. of_nat k * sizeof_address) [k..<0x1000 div (LENGTH('a) div 8)]))"
  using k
proof (induction k arbitrary: s t rule: inc_induct)
  case base
  have "of_nat (0x1000 div (LENGTH('a) div 8)) * sizeof_address = (0x1000 :: 'a word)"
    using offset_eq_iff [OF width order_refl] by simp
  then show ?case by (simp add: heuristic_loop.simps)
next
  case (step n)
  from step.hyps have ne: "of_nat n * sizeof_address \<noteq> (0x1000 :: 'a word)"
    using offset_eq_iff [OF width, of n] by simp
  have next_offset: "of_nat n * sizeof_address + sizeof_address = (of_nat (Suc n) * sizeof_address :: 'a word)"
    by (simp add: algebra_simps)
  from step.hyps have upt: "[n..<0x1000 div (LENGTH('a) div 8)] = n # [Suc n..<0x1000 div (LENGTH('a) div 8)]"
    by (simp add: upt_conv_Cons)
  show ?case
  proof (cases "find_heap_start_heuristic env e (of_nat n * sizeof_address) t")
    case (Pair s' t')
    show ?thesis
    proof (cases "s' = 0")
      case True
      have "heuristic_loop env e (of_nat n * sizeof_address) s t =
            heuristic_loop env e (of_nat n * sizeof_address + sizeof_address) s' t'"
        by (subst heuristic_loop.simps) (simp add: ne Pair True)
      also have "\<dots> = heuristic_loop env e (of_nat (Suc n) * sizeof_address) s' t'"
        by (simp only: next_offset)
      also have "\<dots> = Some (first_accepted env e s' t'
                   (map (\<lambda>k. of_nat k * sizeof_address) [Suc n..<0x1000 div (LENGTH('a) div 8)]))"
        by (rule step.IH)
      finally show ?thesis using True by (simp add: upt Pair)
    next
      case False
      have "heuristic_loop env e (of_nat n * sizeof_address) s t = Some s'"
        by (subst heuristic_loop.simps) (simp add: ne Pair False)
      with False show ?thesis by (simp add: upt Pair)
    qed
  qed
qed

lemma find_heap_start_heuristic_read:
  fixes env :: "'a::len edb"
  assumes width: "LENGTH('a) = 32 \<or> LENGTH('a) = 64"
    and proc: "process env = Some proc"
    and rd: "read_address proc (end_address - offset - 4 * sizeof_address) = Some w"
  shows "find_heap_start_heuristic env end_address offset t =
           (if w = page_size env then end_address - offset else 0, w)"
proof -
  have "(heap_symbol_distance :: 'a word) = 4 * sizeof_address"
    using width by (auto simp: heap_symbol_distance_def sizeof_address_def sizeof_unsigned_int_def)
  with proc rd show ?thesis
    by (simp add: find_heap_start_heuristic_def Let_def)
qed

text \<open>
  C9, as the specification states it, fails: the candidate that is accepted is
  \<open>end - offset\<close>, and the word that is compared with the page size is read at
  \<open>end - offset - 4 * pointer size\<close>, four words before the candidate. With the
  break symbol at \<open>0x8028\<close> and the page size stored at \<open>0x8000\<close>, the offset 8 is
  accepted and the heap start is \<open>0x8020\<close>, not \<open>0x8000\<close>; the word before
  \<open>0x8000\<close> cannot even be read.
\<close>

theorem heap_start_heuristic_counterexample:
  "find_heap_start_heuristic (plain_env proc_brk) 0x8028 8 0 = (0x8020, 0x1000) \<and>
   page_size (plain_env proc_brk) = 0x1000 \<and>
   (0x8028 :: 64 word) - 8 - 4 * sizeof_address = 0x8000 \<and>
   read_address proc_brk 0x8000 = Some 0x1000 \<and>
   read_address proc_brk (0x8000 - sizeof_address) = None \<and>
   heuristic_loop (plain_env proc_brk) 0x8028 0 0 0 = Some 0x8020 \<and>
   (0x8020 :: 64 word) \<noteq> 0x8000"
proof -
  have "find_heap_start_heuristic (plain_env proc_brk) 0x8028 8 0 = (0x8020, 0x1000)"
    by code_simp
  moreover have "page_size (plain_env proc_brk) = 0x1000" by code_simp
  moreover have "(0x8028 :: 64 word) - 8 - 4 * sizeof_address = 0x8000" by code_simp
  moreover have "read_address proc_brk 0x8000 = Some 0x1000" by code_simp
  moreover have "read_address proc_brk (0x8000 - sizeof_address) = None" by code_simp
  moreover have "heuristic_loop (plain_env proc_brk) 0x8028 0 0 0 = Some 0x8020" by code_simp
  moreover have "(0x8020 :: 64 word) \<noteq> 0x8000" by simp
  ultimately show ?thesis by blast
qed

text \<open>
  C9, amended: when the loader-qualified break symbol is absent, the scan tries
  the offsets from 0 up to, and not including, \<open>0x1000\<close> in steps of the pointer
  size, and always ends. For each offset the candidate start is \<open>end - offset\<close>;
  the word read is the one stored 4 pointer sizes before the candidate (at both
  address widths); when this read succeeds, the candidate is accepted exactly when
  the word equals the page size, and otherwise the result is 0 and the scan
  continues. The scan returns the first candidate that is accepted and not 0, or 0.
\<close>

theorem heap_start_heuristic_scan:
  fixes env :: "'a::len edb"
  assumes width: "LENGTH('a) = 32 \<or> LENGTH('a) = 64"
    and proc: "process env = Some proc"
  shows "heuristic_loop env end_address 0 0 test_addr0 =
           Some (first_accepted env end_address 0 test_addr0 heuristic_offsets) \<and>
         (\<forall>offset t w.
            read_address proc (end_address - offset - 4 * sizeof_address) = Some w \<longrightarrow>
            find_heap_start_heuristic env end_address offset t =
              (if w = page_size env then end_address - offset else 0, w))"
proof
  from heuristic_loop_from [OF width, of 0 env end_address 0 test_addr0]
  show "heuristic_loop env end_address 0 0 test_addr0 =
           Some (first_accepted env end_address 0 test_addr0 heuristic_offsets)"
    by (simp add: heuristic_offsets_def)
  from find_heap_start_heuristic_read [OF width proc]
  show "\<forall>offset t w.
            read_address proc (end_address - offset - 4 * sizeof_address) = Some w \<longrightarrow>
            find_heap_start_heuristic env end_address offset t =
              (if w = page_size env then end_address - offset else 0, w)"
    by blast
qed

theorem heap_start_heuristic_scan_witness:
  "(LENGTH(64) = 32 \<or> LENGTH(64) = 64) \<and>
   process (plain_env proc_brk) = Some proc_brk \<and>
   heuristic_loop (plain_env proc_brk) 0x8028 0 0 0 =
     Some (first_accepted (plain_env proc_brk) 0x8028 0 0 heuristic_offsets) \<and>
   first_accepted (plain_env proc_brk) 0x8028 0 0 heuristic_offsets = 0x8020 \<and>
   read_address proc_brk (0x8028 - 0 - 4 * sizeof_address) = Some 0 \<and>
   find_heap_start_heuristic (plain_env proc_brk) 0x8028 0 0 = (0, 0) \<and>
   read_address proc_brk (0x8028 - 8 - 4 * sizeof_address) = Some 0x1000 \<and>
   find_heap_start_heuristic (plain_env proc_brk) 0x8028 8 0 = (0x8028 - 8, 0x1000)"
proof -
  have width: "LENGTH(64) = 32 \<or> LENGTH(64) = 64" by simp
  have proc: "process (plain_env proc_brk) = Some proc_brk" by (simp add: plain_env_def)
  note scan = heap_start_heuristic_scan [OF width proc, of "0x8028" 0]
  have acc: "first_accepted (plain_env proc_brk) 0x8028 0 0 heuristic_offsets = 0x8020"
    by code_simp
  have r0: "read_address proc_brk (0x8028 - 0 - 4 * sizeof_address) = Some 0" by code_simp
  have r8: "read_address proc_brk (0x8028 - 8 - 4 * sizeof_address) = Some 0x1000"
    by code_simp
  have page: "page_size (plain_env proc_brk) = 0x1000" by (simp add: plain_env_def)
  from scan r0 page
  have f0: "find_heap_start_heuristic (plain_env proc_brk) 0x8028 0 0 = (0, 0)"
    by simp
  from scan r8 page
  have f8: "find_heap_start_heuristic (plain_env proc_brk) 0x8028 8 0 = (0x8028 - 8, 0x1000)"
    by simp
  from scan have loop: "heuristic_loop (plain_env proc_brk) 0x8028 0 0 0 =
     Some (first_accepted (plain_env proc_brk) 0x8028 0 0 heuristic_offsets)"
    by simp
  from width proc loop acc r0 f0 r8 f8 show ?thesis by blast
qed

section \<open>The graph\<close>

subsection \<open>The traversal\<close>

lemma result_map_snoc: "result_map (rs @ [r]) = (result_map rs)(block r \<mapsto> length rs)"
  by (simp add: result_map_def enumerate_append_eq)

lemma result_map_SomeD: "result_map rs a = Some i \<Longrightarrow> i < length rs \<and> block (rs ! i) = a"
  by (induction rs arbitrary: i rule: rev_induct)
     (auto simp: result_map_snoc nth_append split: if_splits, simp add: result_map_def)

lemma seed_eq: "seed sel = (Some ` set sel, rev (map Some sel))"
proof -
  have "foldl (\<lambda>st item. (insert (Some item) (fst st), Some item # snd st)) (s, xs) sel
        = (s \<union> Some ` set sel, rev (map Some sel) @ xs)" for s and xs :: "Result_ptr list"
    by (induction sel arbitrary: s xs) auto
  from this [of "{}" "[]"] show ?thesis by (simp add: seed_def)
qed

lemma foldl_visit:
  "fst (foldl (visit rs) (seen, stack) ps) = seen \<union> result_map rs ` set ps \<and>
   set (snd (foldl (visit rs) (seen, stack) ps)) = set stack \<union> (result_map rs ` set ps - seen)"
proof (induction ps arbitrary: seen stack)
  case Nil
  show ?case by simp
next
  case (Cons p ps)
  show ?case
  proof (cases "result_map rs p \<in> seen")
    case True
    then have "visit rs (seen, stack) p = (seen, stack)" by (simp add: visit_def)
    with Cons.IH [of seen stack] True show ?thesis by auto
  next
    case False
    then have "visit rs (seen, stack) p = (insert (result_map rs p) seen, result_map rs p # stack)"
      by (simp add: visit_def Let_def)
    with Cons.IH [of "insert (result_map rs p) seen" "result_map rs p # stack"] False
    show ?thesis by auto
  qed
qed

lemma reachable_step:
  assumes "Some i \<in> reachable_results rs sel" and "i < length rs"
  shows "successors rs i \<subseteq> reachable_results rs sel"
proof
  fix q
  assume "q \<in> successors rs i"
  with assms(2) have "(Some i, q) \<in> result_edges rs" by (auto simp: result_edges_def)
  moreover from assms(1) obtain s where s: "s \<in> Some ` set sel"
    and "(s, Some i) \<in> (result_edges rs)\<^sup>*"
    by (auto simp: reachable_results_def)
  ultimately have "(s, q) \<in> (result_edges rs)\<^sup>*" by (auto intro: rtrancl_into_rtrancl)
  with s show "q \<in> reachable_results rs sel" by (auto simp: reachable_results_def)
qed

lemma reachable_closed:
  assumes seeds: "Some ` set sel \<subseteq> D"
    and closed: "\<forall>p\<in>D. \<exists>i. p = Some i \<and> i < length rs \<and> successors rs i \<subseteq> D"
  shows "reachable_results rs sel \<subseteq> D"
proof
  fix q
  assume "q \<in> reachable_results rs sel"
  then obtain s where s: "s \<in> Some ` set sel" and path: "(s, q) \<in> (result_edges rs)\<^sup>*"
    by (auto simp: reachable_results_def)
  from path show "q \<in> D"
  proof (induction rule: rtrancl_induct)
    case base
    with s seeds show ?case by auto
  next
    case (step y z)
    from step.hyps(2) obtain i where "y = Some i" "z \<in> successors rs i"
      by (auto simp: result_edges_def)
    with step.IH closed show ?case by auto
  qed
qed

lemma update_entries:
  "(a, b) \<in> set (AList.update k v al) \<Longrightarrow> (a, b) = (k, v) \<or> (a, b) \<in> set al"
  by (induction al) (auto split: if_splits)

text \<open>What the traversal returns, from any state that satisfies the invariant.\<close>

lemma graph_traversal_inv:
  assumes "traversal_inv rs sel stack seen nodes D"
  shows "case graph_traversal rs stack seen nodes of
           Inr nodes' \<Rightarrow>
             fst ` set nodes' = visited_blocks rs sel \<and> distinct (map fst nodes') \<and>
             (\<forall>(k, v)\<in>set nodes'. v = Some k) \<and>
             (\<forall>p\<in>reachable_results rs sel.
                \<exists>i. p = Some i \<and> i < length rs \<and> successors rs i \<subseteq> reachable_results rs sel)
         | Inl e \<Rightarrow>
             e = InvalidPointer \<and>
             (None \<in> reachable_results rs sel \<or>
              (\<exists>i. Some i \<in> reachable_results rs sel \<and> \<not> i < length rs))"
  using assms
proof (induction rs stack seen nodes arbitrary: D rule: graph_traversal.induct)
  case (1 rs seen nodes)
  from 1 have seen: "seen = D" and seeds: "Some ` set sel \<subseteq> D"
    and sub: "D \<subseteq> reachable_results rs sel"
    and closed: "\<forall>p\<in>D. \<exists>i. p = Some i \<and> i < length rs \<and> successors rs i \<subseteq> D"
    and keys: "fst ` set nodes = {block (rs ! i) | i. Some i \<in> D}"
    and rest: "distinct (map fst nodes)" "\<forall>(k, v)\<in>set nodes. v = Some k"
    by (auto simp: traversal_inv_def)
  from reachable_closed [OF seeds closed] sub have eq: "reachable_results rs sel = D" by auto
  with keys closed rest show ?case by (simp add: visited_blocks_def)
next
  case (2 rs result_stack seen nodes)
  then have "None \<in> reachable_results rs sel" by (auto simp: traversal_inv_def)
  then show ?case by simp
next
  case (3 rs i result_stack seen nodes)
  from 3(2) have inv: "seen = set (Some i # result_stack) \<union> D"
    "Some ` set sel \<subseteq> seen" "seen \<subseteq> reachable_results rs sel"
    "\<forall>p\<in>D. \<exists>i. p = Some i \<and> i < length rs \<and> successors rs i \<subseteq> seen"
    "fst ` set nodes = {block (rs ! i) | i. Some i \<in> D}"
    "distinct (map fst nodes)" "\<forall>(k, v)\<in>set nodes. v = Some k"
    by (auto simp: traversal_inv_def)
  from inv(1,3) have reach: "Some i \<in> reachable_results rs sel" by auto
  show ?case
  proof (cases "i < length rs")
    case False
    with reach show ?thesis by auto
  next
    case True
    define st where "st = foldl (visit rs) (seen, result_stack) (points_to (rs ! i))"
    have fst_st: "fst st = seen \<union> successors rs i"
      and snd_st: "set (snd st) = set result_stack \<union> (successors rs i - seen)"
      using foldl_visit [of rs seen result_stack "points_to (rs ! i)"]
      by (simp_all add: st_def successors_def)
    have "traversal_inv rs sel (snd st) (fst st)
            (AList.update (block (rs ! i)) (Some (block (rs ! i))) nodes) (insert (Some i) D)"
      unfolding traversal_inv_def
    proof (intro conjI)
      show "fst st = set (snd st) \<union> insert (Some i) D"
        using inv(1) fst_st snd_st by auto
      show "Some ` set sel \<subseteq> fst st" using inv(2) fst_st by auto
      show "fst st \<subseteq> reachable_results rs sel"
        using inv(3) fst_st reachable_step [OF reach True] by auto
      show "\<forall>p\<in>insert (Some i) D. \<exists>i. p = Some i \<and> i < length rs \<and> successors rs i \<subseteq> fst st"
      proof
        fix p
        assume "p \<in> insert (Some i) D"
        then show "\<exists>i. p = Some i \<and> i < length rs \<and> successors rs i \<subseteq> fst st"
        proof
          assume "p = Some i"
          with True fst_st show ?thesis by auto
        next
          assume "p \<in> D"
          with inv(4) obtain j where "p = Some j" "j < length rs" "successors rs j \<subseteq> seen"
            by blast
          with fst_st show ?thesis by auto
        qed
      qed
      show "fst ` set (AList.update (block (rs ! i)) (Some (block (rs ! i))) nodes) =
              {block (rs ! ia) | ia. Some ia \<in> insert (Some i) D}"
        using inv(5) by (auto simp: dom_update)
      show "distinct (map fst (AList.update (block (rs ! i)) (Some (block (rs ! i))) nodes))"
        using inv(6) by (rule distinct_update)
      show "\<forall>(k, v)\<in>set (AList.update (block (rs ! i)) (Some (block (rs ! i))) nodes). v = Some k"
        using inv(7) by (auto dest!: update_entries)
    qed
    from 3(1) [OF True refl st_def [symmetric, THEN sym] this] True show ?thesis
      by (simp add: Let_def st_def)
  qed
qed

lemma traversal_inv_seed: "traversal_inv rs sel (snd (seed sel)) (fst (seed sel)) [] {}"
  by (auto simp: traversal_inv_def seed_eq reachable_results_def)

lemma dom_result_map: "dom (result_map rs) = block ` set rs"
proof (induction rs rule: rev_induct)
  case Nil
  show ?case by (simp add: result_map_def)
next
  case (snoc r rs)
  have "dom (result_map (rs @ [r])) = insert (block r) (dom (result_map rs))"
    by (simp add: result_map_snoc)
  with snoc show ?case by auto
qed

lemma reachable_valid:
  assumes seeds: "\<forall>i\<in>set sel. i < length rs"
    and closed: "\<forall>r\<in>set rs. set (points_to r) \<subseteq> block ` set rs"
    and q: "q \<in> reachable_results rs sel"
  shows "\<exists>i. q = Some i \<and> i < length rs"
proof -
  from q obtain s where s: "s \<in> Some ` set sel" and path: "(s, q) \<in> (result_edges rs)\<^sup>*"
    by (auto simp: reachable_results_def)
  from path show ?thesis
  proof (induction rule: rtrancl_induct)
    case base
    with s seeds show ?case by auto
  next
    case (step y z)
    from step.hyps(2) obtain i p where i: "y = Some i" "i < length rs"
      and p: "p \<in> set (points_to (rs ! i))" "z = result_map rs p"
      by (auto simp: result_edges_def successors_def)
    from i p closed have "p \<in> block ` set rs" by (meson nth_mem subsetD)
    then have "p \<in> dom (result_map rs)" by (simp add: dom_result_map)
    then obtain j where "result_map rs p = Some j" by auto
    with p result_map_SomeD [of rs p j] show ?case by auto
  qed
qed

lemma graph_traversal_seed:
  "case graph_traversal rs (snd (seed sel)) (fst (seed sel)) [] of
     Inr nodes' \<Rightarrow>
       fst ` set nodes' = visited_blocks rs sel \<and> distinct (map fst nodes') \<and>
       (\<forall>(k, v)\<in>set nodes'. v = Some k) \<and>
       (\<forall>p\<in>reachable_results rs sel.
          \<exists>i. p = Some i \<and> i < length rs \<and> successors rs i \<subseteq> reachable_results rs sel)
   | Inl e \<Rightarrow>
       e = InvalidPointer \<and>
       (None \<in> reachable_results rs sel \<or>
        (\<exists>i. Some i \<in> reachable_results rs sel \<and> \<not> i < length rs))"
  by (rule graph_traversal_inv [OF traversal_inv_seed])

lemma visited_many: "visited_blocks many_results [0..<3001] = of_nat ` {0..<3001}"
proof -
  have len: "length many_results = 3001" by (simp add: many_results_def)
  have blk: "block (many_results ! i) = of_nat i" if "i < 3001" for i
    using that by (simp add: many_results_def new_Result_def del: upt_Suc)
  have seeds: "\<forall>i\<in>set [0..<3001]. i < length many_results" by (simp add: len del: upt_Suc)
  have closed: "\<forall>r\<in>set many_results. set (points_to r) \<subseteq> block ` set many_results"
    by (auto simp: many_results_def new_Result_def simp del: upt_Suc)
  show ?thesis
  proof (intro equalityI subsetI)
    fix b
    assume "b \<in> visited_blocks many_results [0..<3001]"
    then obtain i where b: "b = block (many_results ! i)"
      and i: "Some i \<in> reachable_results many_results [0..<3001]"
      by (auto simp: visited_blocks_def)
    from reachable_valid [OF seeds closed i] len have "i < 3001" by simp
    with b blk show "b \<in> of_nat ` {0..<3001}" by auto
  next
    fix b :: "64 word"
    assume "b \<in> of_nat ` {0..<3001}"
    then obtain i where i: "i < 3001" "b = of_nat i" by auto
    then have "Some i \<in> reachable_results many_results [0..<3001]"
      by (auto simp: reachable_results_def simp del: upt_Suc)
    moreover from i blk have "b = block (many_results ! i)" by simp
    ultimately show "b \<in> visited_blocks many_results [0..<3001]"
      unfolding visited_blocks_def by blast
  qed
qed

lemma card_visited_many: "card (visited_blocks many_results [0..<3001]) = 3001"
proof -
  have "inj_on (of_nat :: nat \<Rightarrow> 64 word) {0..<3001}"
  proof (rule inj_onI)
    fix x y :: nat
    assume x: "x \<in> {0..<3001}" and y: "y \<in> {0..<3001}"
      and eq: "(of_nat x :: 64 word) = of_nat y"
    from x have "x < 2 ^ 64" by simp
    moreover from y have "y < 2 ^ 64" by simp
    ultimately show "x = y" using eq
      by (simp add: word_of_nat_eq_iff take_bit_nat_eq_self)
  qed
  then show ?thesis by (simp add: visited_many card_image)
qed

text \<open>
  C6: when every selected row is a row of the chunk list and every recorded edge
  leads to a chunk of the list (as pointer detection records them), the handler
  visits exactly the chunks reachable from the selection. When these chunks have
  more than 3000 addresses, the handler fails with \<open>GraphTooLarge\<close> and hands no
  graph to the display; otherwise it produces a graph whose nodes are these
  addresses. The handler reads the chunk list through a constant reference: the list
  is an argument of the model and no part of what the handler returns.
\<close>

theorem graph_too_large:
  fixes rs :: "'a::len Result list"
  assumes seeds: "\<forall>i\<in>set sel. i < length rs"
    and closed: "\<forall>r\<in>set rs. set (points_to r) \<subseteq> block ` set rs"
  shows "(3000 < card (visited_blocks rs sel) \<longrightarrow>
            on_btnGraph_clicked rs sel hash_order = Inl GraphTooLarge) \<and>
         (card (visited_blocks rs sel) \<le> 3000 \<longrightarrow>
            (\<exists>g. on_btnGraph_clicked rs sel hash_order = Inr g \<and>
                 set (graph_nodes g) = visited_blocks rs sel))"
proof (cases "graph_traversal rs (snd (seed sel)) (fst (seed sel)) []")
  case (Inl e)
  with graph_traversal_seed [of rs sel]
  have "None \<in> reachable_results rs sel \<or>
        (\<exists>i. Some i \<in> reachable_results rs sel \<and> \<not> i < length rs)"
    by simp
  with reachable_valid [OF seeds closed] have False by blast
  then show ?thesis ..
next
  case (Inr nodes')
  with graph_traversal_seed [of rs sel]
  have keys: "fst ` set nodes' = visited_blocks rs sel" and d: "distinct (map fst nodes')"
    by simp_all
  from d have "card (fst ` set nodes') = length nodes'"
    by (metis distinct_card length_map set_map)
  with keys have "length nodes' = card (visited_blocks rs sel)" by simp
  with Inr keys show ?thesis by (auto simp: on_btnGraph_clicked_def Let_def)
qed

theorem graph_too_large_witness:
  "length many_results = 3001 \<and>
   concat (map points_to many_results) = [] \<and>
   3000 < card (visited_blocks many_results [0..<3001]) \<and>
   on_btnGraph_clicked many_results [0..<3001] [] = Inl GraphTooLarge"
proof -
  have len: "length many_results = 3001" by (simp add: many_results_def)
  have pts: "concat (map points_to many_results) = []"
    by (simp add: many_results_def new_Result_def comp_def del: upt_Suc)
  have seeds: "\<forall>i\<in>set [0..<3001]. i < length many_results" by (simp add: len del: upt_Suc)
  have closed: "\<forall>r\<in>set many_results. set (points_to r) \<subseteq> block ` set many_results"
    by (auto simp: many_results_def new_Result_def simp del: upt_Suc)
  have big: "3000 < card (visited_blocks many_results [0..<3001])"
    by (simp add: card_visited_many)
  from graph_too_large [OF seeds closed, of "[]"] big
  have "on_btnGraph_clicked many_results [0..<3001] [] = Inl GraphTooLarge" by blast
  with len pts big show ?thesis by blast
qed

subsection \<open>Nodes and edges of the graph\<close>












end
